theory Spec2Isabelle
  imports Main "HOL-Library.Word" "HOL-Library.AList"
begin

section \<open>Data model of vtkThreadedCallbackQueue\<close>

text \<open>
  The queue of \<^verbatim>\<open>Parallel/Core/vtkThreadedCallbackQueue.cxx\<close> is embedded with
  explicit state passing. Objects that the C++ code reaches through pointers (the shared
  states of the futures, the atomic thread indices) live in stores indexed by addresses.
  Every member function becomes a function from the state to an error or a new state; a
  C++ operation with undefined behaviour or a thrown exception is an error value.

  Mutexes are not part of the state: every function below is the sequential execution of
  one call, and a call that would block on the condition variable reports that it waits.
\<close>

type_synonym addr = nat
type_synonym thread_id = nat
type_synonym cell = nat

text \<open>
  Modelled from the spec: the status enumeration is declared in the header, which is not
  among the sources. The source file names \<^verbatim>\<open>ON_HOLD\<close>, \<^verbatim>\<open>ENQUEUED\<close> and \<^verbatim>\<open>RUNNING\<close>; the
  spec's data model adds the final status of a task that has run.
\<close>

datatype status = ON_HOLD | ENQUEUED | RUNNING | DONE

text \<open>
  The fields of a shared state that the source file reads or writes. \<^verbatim>\<open>InvokerIndex\<close> is
  held as the bits of a 64-bit integer: the source moves it through \<^verbatim>\<open>std::size_t\<close>
  (\<^verbatim>\<open>SignalDependentSharedFutures\<close>) and \<^verbatim>\<open>vtkIdType\<close> (\<^verbatim>\<open>TryInvoke\<close>), and both
  conversions keep the bits. A future and its shared state are identified: a future is
  used only through \<^verbatim>\<open>GetSharedState()\<close> and as a key of the on-hold store.
\<close>

record InvokerFutureSharedStateBase =
  Status :: status
  NumberOfPriorSharedFuturesRemaining :: int
  DependentSharedFutures :: "addr list"
  InvokerIndex :: "64 word"

record InvokerBase =
  SharedState :: addr
  IsHighPriority :: bool

record ThreadWorker =
  ThreadIndex :: cell

text \<open>
  Effects that leave no mark in the members of the queue are appended to a trace:
  wake-ups of the condition variable, threads started and joined, payloads run. Each
  assignment to a \<^verbatim>\<open>Status\<close> field is also recorded, so that the transitions that happen
  within one call stay visible after it.
\<close>

datatype event =
    NotifyOne
  | NotifyAll
  | Join thread_id
  | Spawn thread_id cell
  | Payload addr
  | StatusWrite addr status

datatype error =
    InvalidPointer
  | NullDereference
  | OutOfRange
  | OnHoldEntryMissing
  | AssertionFailed
  | ResourceDeadlock
  | OutOfFuel

text \<open>
  The members of the queue object, followed by the two stores, the supply of fresh thread
  identities and cells, and the trace. A null \<^verbatim>\<open>InvokerBasePointer\<close> in the deque is
  \<open>None\<close>.
\<close>

record vtkThreadedCallbackQueue =
  InvokerQueue :: "InvokerBase option list"
  InvokersOnHold :: "(addr \<times> InvokerBase) list"
  Threads :: "thread_id list"
  ThreadIdToIndex :: "thread_id \<rightharpoonup> cell"
  NumberOfThreads :: int
  Destroying :: bool
  SharedStates :: "addr \<rightharpoonup> InvokerFutureSharedStateBase"
  AtomicInts :: "cell \<Rightarrow> int"
  NextThreadId :: thread_id
  NextCell :: cell
  Trace :: "event list"

section \<open>Operations\<close>

subsection \<open>Status writes and the payload\<close>

definition write_Status ::
  "addr \<Rightarrow> status \<Rightarrow> vtkThreadedCallbackQueue \<Rightarrow> error + vtkThreadedCallbackQueue" where
  "write_Status a st s =
     (case SharedStates s a of
        None \<Rightarrow> Inl InvalidPointer
      | Some x \<Rightarrow>
          Inr (s\<lparr>SharedStates := (SharedStates s)(a \<mapsto> x\<lparr>Status := st\<rparr>),
                 Trace := Trace s @ [StatusWrite a st]\<rparr>))"

text \<open>
  Modelled from the spec: the call operator of an invoker is defined in the header's
  template code, which is not among the sources. By the spec the payload is opaque, and
  the completion of an invoker takes its status from RUNNING to DONE.
\<close>

definition RunInvoker ::
  "InvokerBase \<Rightarrow> vtkThreadedCallbackQueue \<Rightarrow> error + vtkThreadedCallbackQueue" where
  "RunInvoker invoker s =
     write_Status (SharedState invoker) DONE
       (s\<lparr>Trace := Trace s @ [Payload (SharedState invoker)]\<rparr>)"

subsection \<open>PopFrontNullptr\<close>

fun PopFrontNullptr_loop :: "InvokerBase option list \<Rightarrow> InvokerBase option list" where
  "PopFrontNullptr_loop [] = []"
| "PopFrontNullptr_loop (None # q) = PopFrontNullptr_loop q"
| "PopFrontNullptr_loop (Some i # q) = Some i # q"

definition PopFrontNullptr :: "vtkThreadedCallbackQueue \<Rightarrow> vtkThreadedCallbackQueue" where
  "PopFrontNullptr s = s\<lparr>InvokerQueue := PopFrontNullptr_loop (InvokerQueue s)\<rparr>"

subsection \<open>SignalDependentSharedFutures and Invoke\<close>

text \<open>
  The loop of lines 279 to 290: the assertion, the new index, the status and the push to
  the front of the deque.
\<close>

fun SignalDependentSharedFutures_reinsert ::
  "InvokerBase list \<Rightarrow> 64 word \<Rightarrow> vtkThreadedCallbackQueue
     \<Rightarrow> error + vtkThreadedCallbackQueue" where
  "SignalDependentSharedFutures_reinsert [] index s = Inr s"
| "SignalDependentSharedFutures_reinsert (invoker # rest) index s =
     (case SharedStates s (SharedState invoker) of
        None \<Rightarrow> Inl InvalidPointer
      | Some st \<Rightarrow>
          if Status st \<noteq> ON_HOLD then Inl AssertionFailed
          else
            (case write_Status (SharedState invoker) ENQUEUED
                    (s\<lparr>SharedStates :=
                         (SharedStates s)(SharedState invoker \<mapsto> st\<lparr>InvokerIndex := index - 1\<rparr>)\<rparr>) of
               Inl e \<Rightarrow> Inl e
             | Inr s1 \<Rightarrow>
                 SignalDependentSharedFutures_reinsert rest (index - 1)
                   (s1\<lparr>InvokerQueue := Some invoker # InvokerQueue s1\<rparr>)))"

text \<open>Lines 270 to 295: the start index, the reinsertion loop and the wake-ups.\<close>

definition SignalDependentSharedFutures_launch ::
  "InvokerBase list \<Rightarrow> vtkThreadedCallbackQueue \<Rightarrow> error + vtkThreadedCallbackQueue" where
  "SignalDependentSharedFutures_launch invokersToLaunch s =
     (case
        (if invokersToLaunch \<noteq> [] then
           (case InvokerQueue s of
              [] \<Rightarrow>
                SignalDependentSharedFutures_reinsert invokersToLaunch
                  (of_nat (length invokersToLaunch)) s
            | None # _ \<Rightarrow> Inl NullDereference
            | Some front # _ \<Rightarrow>
                (case SharedStates s (SharedState front) of
                   None \<Rightarrow> Inl InvalidPointer
                 | Some frontState \<Rightarrow>
                     SignalDependentSharedFutures_reinsert invokersToLaunch
                       (InvokerIndex frontState) s))
         else Inr s) of
        Inl e \<Rightarrow> Inl e
      | Inr s1 \<Rightarrow>
          Inr (s1\<lparr>Trace := Trace s1 @ replicate (length invokersToLaunch) NotifyOne\<rparr>))"

text \<open>
  Line 244: the decrement of the dependent's counter. Lines 249 to 255: the lambda that
  finds the dependent's invoker in the on-hold store, moves it out and erases the entry;
  dereferencing the iterator of a failed \<^verbatim>\<open>find\<close> is an error.
\<close>

definition SignalDependentSharedFutures_decrement ::
  "addr \<Rightarrow> InvokerFutureSharedStateBase \<Rightarrow> vtkThreadedCallbackQueue
     \<Rightarrow> vtkThreadedCallbackQueue" where
  "SignalDependentSharedFutures_decrement future futureState s =
     s\<lparr>SharedStates := (SharedStates s)(future \<mapsto>
         futureState\<lparr>NumberOfPriorSharedFuturesRemaining :=
           NumberOfPriorSharedFuturesRemaining futureState - 1\<rparr>)\<rparr>"

definition SignalDependentSharedFutures_take ::
  "addr \<Rightarrow> vtkThreadedCallbackQueue \<Rightarrow> error + (InvokerBase \<times> vtkThreadedCallbackQueue)" where
  "SignalDependentSharedFutures_take future s =
     (case map_of (InvokersOnHold s) future of
        None \<Rightarrow> Inl OnHoldEntryMissing
      | Some tmp \<Rightarrow>
          Inr (tmp, s\<lparr>InvokersOnHold := AList.delete future (InvokersOnHold s)\<rparr>))"

text \<open>
  \<^verbatim>\<open>Invoke\<close> runs the invoker and signals its dependents; the signalling loop invokes a
  high-priority dependent in place, so the two functions call each other. The first
  argument bounds the depth of these nested invocations.
\<close>

fun Invoke ::
  "nat \<Rightarrow> InvokerBase \<Rightarrow> vtkThreadedCallbackQueue \<Rightarrow> error + vtkThreadedCallbackQueue"
and SignalDependentSharedFutures ::
  "nat \<Rightarrow> InvokerBase \<Rightarrow> vtkThreadedCallbackQueue \<Rightarrow> error + vtkThreadedCallbackQueue"
and SignalDependentSharedFutures_iterate ::
  "nat \<Rightarrow> addr list \<Rightarrow> InvokerBase list \<Rightarrow> vtkThreadedCallbackQueue
     \<Rightarrow> error + (InvokerBase list \<times> vtkThreadedCallbackQueue)" where
  "Invoke 0 invoker s = Inl OutOfFuel"
| "Invoke (Suc k) invoker s =
     (case write_Status (SharedState invoker) RUNNING s of
        Inl e \<Rightarrow> Inl e
      | Inr s1 \<Rightarrow>
          (case RunInvoker invoker s1 of
             Inl e \<Rightarrow> Inl e
           | Inr s2 \<Rightarrow> SignalDependentSharedFutures k invoker s2))"
| "SignalDependentSharedFutures k invoker s =
     (case SharedStates s (SharedState invoker) of
        None \<Rightarrow> Inl InvalidPointer
      | Some invokerState \<Rightarrow>
          (case SignalDependentSharedFutures_iterate k
                  (DependentSharedFutures invokerState) [] s of
             Inl e \<Rightarrow> Inl e
           | Inr (invokersToLaunch, s1) \<Rightarrow>
               SignalDependentSharedFutures_launch invokersToLaunch s1))"
| "SignalDependentSharedFutures_iterate k [] invokersToLaunch s = Inr (invokersToLaunch, s)"
| "SignalDependentSharedFutures_iterate k (future # rest) invokersToLaunch s =
     (case SharedStates s future of
        None \<Rightarrow> Inl InvalidPointer
      | Some futureState \<Rightarrow>
          if Status futureState = ON_HOLD
             \<and> NumberOfPriorSharedFuturesRemaining futureState - 1 = 0
          then
            (case SignalDependentSharedFutures_take future
                    (SignalDependentSharedFutures_decrement future futureState s) of
               Inl e \<Rightarrow> Inl e
             | Inr (waitingInvoker, s2) \<Rightarrow>
                 if IsHighPriority waitingInvoker then
                   (case Invoke k waitingInvoker s2 of
                      Inl e \<Rightarrow> Inl e
                    | Inr s3 \<Rightarrow>
                        SignalDependentSharedFutures_iterate k rest invokersToLaunch s3)
                 else
                   SignalDependentSharedFutures_iterate k rest
                     (invokersToLaunch @ [waitingInvoker]) s2)
          else
            SignalDependentSharedFutures_iterate k rest invokersToLaunch
              (SignalDependentSharedFutures_decrement future futureState s))"

subsection \<open>ThreadWorker\<close>

definition OnHold :: "ThreadWorker \<Rightarrow> vtkThreadedCallbackQueue \<Rightarrow> bool" where
  "OnHold w s \<longleftrightarrow>
     AtomicInts s (ThreadIndex w) < NumberOfThreads s \<and> \<not> Destroying s \<and> InvokerQueue s = []"

definition Continue :: "ThreadWorker \<Rightarrow> vtkThreadedCallbackQueue \<Rightarrow> bool" where
  "Continue w s \<longleftrightarrow>
     AtomicInts s (ThreadIndex w) < NumberOfThreads s \<and> InvokerQueue s \<noteq> []"

text \<open>
  \<^verbatim>\<open>Pop\<close> either waits on the condition variable (the thread is on hold and nothing in
  this call can change that) or returns its boolean.
\<close>

datatype pop_outcome = Waits | Returns bool

definition Pop ::
  "nat \<Rightarrow> ThreadWorker \<Rightarrow> vtkThreadedCallbackQueue
     \<Rightarrow> error + (pop_outcome \<times> vtkThreadedCallbackQueue)" where
  "Pop k w s =
     (if OnHold w s then Inr (Waits, s)
      else if \<not> Continue w s then Inr (Returns False, s)
      else
        (case InvokerQueue s of
           [] \<Rightarrow> Inl OutOfRange
         | front # rest \<Rightarrow>
             (let s1 = PopFrontNullptr (s\<lparr>InvokerQueue := rest\<rparr>) in
                case front of
                  None \<Rightarrow> Inl NullDereference
                | Some invoker \<Rightarrow>
                    (case Invoke k invoker s1 of
                       Inl e \<Rightarrow> Inl e
                     | Inr s2 \<Rightarrow> Inr (Returns True, s2)))))"

text \<open>
  The call operator of the worker: the loop around \<^verbatim>\<open>Pop\<close>, then the removal of the
  thread's identity from \<^verbatim>\<open>ThreadIdToIndex\<close>. The first argument bounds the number of
  iterations and the depth of nested invocations.
\<close>

datatype run_outcome = Suspended | Exited

fun ThreadWorker_run ::
  "nat \<Rightarrow> thread_id \<Rightarrow> ThreadWorker \<Rightarrow> vtkThreadedCallbackQueue
     \<Rightarrow> error + (run_outcome \<times> vtkThreadedCallbackQueue)" where
  "ThreadWorker_run 0 this_thread w s = Inl OutOfFuel"
| "ThreadWorker_run (Suc k) this_thread w s =
     (case Pop k w s of
        Inl e \<Rightarrow> Inl e
      | Inr (Waits, s1) \<Rightarrow> Inr (Suspended, s1)
      | Inr (Returns True, s1) \<Rightarrow> ThreadWorker_run k this_thread w s1
      | Inr (Returns False, s1) \<Rightarrow>
          Inr (Exited, s1\<lparr>ThreadIdToIndex := (ThreadIdToIndex s1)(this_thread := None)\<rparr>))"

subsection \<open>Sync, the destructor and SetNumberOfThreads\<close>

text \<open>
  \<^verbatim>\<open>std::thread::join\<close> on the calling thread's own handle fails with
  \<^verbatim>\<open>resource_deadlock_would_occur\<close>.
\<close>

fun join_all ::
  "thread_id \<Rightarrow> thread_id list \<Rightarrow> vtkThreadedCallbackQueue
     \<Rightarrow> error + vtkThreadedCallbackQueue" where
  "join_all this_thread [] s = Inr s"
| "join_all this_thread (t # ts) s =
     (if t = this_thread then Inl ResourceDeadlock
      else join_all this_thread ts (s\<lparr>Trace := Trace s @ [Join t]\<rparr>))"

definition Sync ::
  "thread_id \<Rightarrow> int \<Rightarrow> vtkThreadedCallbackQueue \<Rightarrow> error + vtkThreadedCallbackQueue" where
  "Sync this_thread startId s =
     (if startId < 0 \<or> int (length (Threads s)) < startId then Inl OutOfRange
      else join_all this_thread (drop (nat startId) (Threads s)) s)"

definition Destructor ::
  "thread_id \<Rightarrow> vtkThreadedCallbackQueue \<Rightarrow> error + vtkThreadedCallbackQueue" where
  "Destructor this_thread s =
     Sync this_thread 0 (s\<lparr>Destroying := True, Trace := Trace s @ [NotifyAll]\<rparr>)"

text \<open>
  The generator of lines 151 to 160, called once per missing thread: a new atomic index
  holding the current size of \<^verbatim>\<open>Threads\<close>, a new thread running a worker on it, and the
  registration of the thread's identity.
\<close>

fun spawn_threads :: "nat \<Rightarrow> vtkThreadedCallbackQueue \<Rightarrow> vtkThreadedCallbackQueue" where
  "spawn_threads 0 s = s"
| "spawn_threads (Suc m) s =
     spawn_threads m
       (s\<lparr>Threads := Threads s @ [NextThreadId s],
          ThreadIdToIndex :=
            (if NextThreadId s \<in> dom (ThreadIdToIndex s) then ThreadIdToIndex s
             else (ThreadIdToIndex s)(NextThreadId s \<mapsto> NextCell s)),
          AtomicInts := (AtomicInts s)(NextCell s := int (length (Threads s))),
          NextThreadId := Suc (NextThreadId s),
          NextCell := Suc (NextCell s),
          Trace := Trace s @ [Spawn (NextThreadId s) (NextCell s)]\<rparr>)"

text \<open>Lines 169 to 184: the calling thread trades places with thread 0.\<close>

definition swap_with_thread0 ::
  "thread_id \<Rightarrow> int \<Rightarrow> vtkThreadedCallbackQueue \<Rightarrow> error + vtkThreadedCallbackQueue" where
  "swap_with_thread0 this_thread numberOfThreads s =
     (case ThreadIdToIndex s this_thread of
        None \<Rightarrow> Inl OutOfRange
      | Some threadIndex \<Rightarrow>
          if AtomicInts s threadIndex \<noteq> 0 \<and> AtomicInts s threadIndex \<ge> numberOfThreads then
            (case Threads s of
               [] \<Rightarrow> Inl OutOfRange
             | t0 # _ \<Rightarrow>
                 (case ThreadIdToIndex s t0 of
                    None \<Rightarrow> Inl OutOfRange
                  | Some thread0Index \<Rightarrow>
                      if AtomicInts s threadIndex < 0
                         \<or> int (length (Threads s)) \<le> AtomicInts s threadIndex
                      then Inl OutOfRange
                      else
                        (let i = nat (AtomicInts s threadIndex);
                             s1 = s\<lparr>Threads := (Threads s)[i := Threads s ! 0, 0 := Threads s ! i]\<rparr>;
                             tmp = AtomicInts s1 thread0Index;
                             s2 = s1\<lparr>AtomicInts :=
                                    (AtomicInts s1)(thread0Index := AtomicInts s1 threadIndex)\<rparr>;
                             s3 = s2\<lparr>AtomicInts := (AtomicInts s2)(threadIndex := tmp)\<rparr>
                         in Inr s3)))
          else Inr s)"

text \<open>
  The body of the lambda that \<^verbatim>\<open>SetNumberOfThreads\<close> hands to \<^verbatim>\<open>PushControl\<close>, run by
  the thread \<open>this_thread\<close>. (\<^verbatim>\<open>PushControl\<close> is declared in the header and only schedules
  the body.)
\<close>

definition SetNumberOfThreads ::
  "thread_id \<Rightarrow> int \<Rightarrow> vtkThreadedCallbackQueue \<Rightarrow> error + vtkThreadedCallbackQueue" where
  "SetNumberOfThreads this_thread numberOfThreads s =
     (let size = int (length (Threads s)) in
        if Destroying s then Inr s
        else if size = numberOfThreads then Inr s
        else if size < numberOfThreads then
          Inr (spawn_threads (nat (numberOfThreads - size))
                 (s\<lparr>NumberOfThreads := numberOfThreads\<rparr>))
        else
          (case swap_with_thread0 this_thread numberOfThreads s of
             Inl e \<Rightarrow> Inl e
           | Inr s1 \<Rightarrow>
               (let s2 = s1\<lparr>NumberOfThreads := numberOfThreads,
                            Trace := Trace s1 @ [NotifyAll]\<rparr>
                in
                  case Sync this_thread (NumberOfThreads s2) s2 of
                    Inl e \<Rightarrow> Inl e
                  | Inr s3 \<Rightarrow>
                      Inr (s3\<lparr>Threads := take (nat numberOfThreads) (Threads s3)\<rparr>))))"

subsection \<open>TryInvoke\<close>

text \<open>
  The lambda of lines 302 to 330: it returns the pointer taken from the deque (null when
  it aborts) and the queue as it leaves it. Indexing the deque outside its bounds is an
  error; a moved-from slot holds null.
\<close>

definition TryInvoke_take ::
  "addr \<Rightarrow> vtkThreadedCallbackQueue
     \<Rightarrow> error + (InvokerBase option \<times> vtkThreadedCallbackQueue)" where
  "TryInvoke_take state s =
     (case SharedStates s state of
        None \<Rightarrow> Inl InvalidPointer
      | Some st \<Rightarrow>
          if Status st \<noteq> ENQUEUED then Inr (None, s)
          else
            (case InvokerQueue s of
               [] \<Rightarrow> Inr (None, s)
             | None # _ \<Rightarrow> Inl NullDereference
             | Some front # _ \<Rightarrow>
                 (case SharedStates s (SharedState front) of
                    None \<Rightarrow> Inl InvalidPointer
                  | Some frontState \<Rightarrow>
                      (let index = InvokerIndex st - InvokerIndex frontState in
                         if length (InvokerQueue s) \<le> unat index then Inl OutOfRange
                         else
                           (let result = InvokerQueue s ! unat index;
                                s1 = s\<lparr>InvokerQueue := (InvokerQueue s)[unat index := None]\<rparr>
                            in
                              if index = 0 then
                                Inr (result, PopFrontNullptr (s1\<lparr>InvokerQueue := tl (InvokerQueue s1)\<rparr>))
                              else Inr (result, s1))))))"

definition TryInvoke ::
  "nat \<Rightarrow> addr \<Rightarrow> vtkThreadedCallbackQueue \<Rightarrow> error + (bool \<times> vtkThreadedCallbackQueue)" where
  "TryInvoke k state s =
     (case TryInvoke_take state s of
        Inl e \<Rightarrow> Inl e
      | Inr (None, s1) \<Rightarrow> Inr (False, s1)
      | Inr (Some invoker, s1) \<Rightarrow>
          (case Invoke k invoker s1 of
             Inl e \<Rightarrow> Inl e
           | Inr s2 \<Rightarrow> Inr (True, s2)))"

section \<open>Example states\<close>

definition empty_queue :: vtkThreadedCallbackQueue where
  "empty_queue =
     \<lparr>InvokerQueue = [], InvokersOnHold = [], Threads = [],
      ThreadIdToIndex = Map.empty, NumberOfThreads = 0, Destroying = False,
      SharedStates = Map.empty, AtomicInts = (\<lambda>_. 0), NextThreadId = 1, NextCell = 0,
      Trace = []\<rparr>"

section \<open>Relations and invariants used in the proofs\<close>

text \<open>
  What every call of \<^verbatim>\<open>Invoke\<close> and \<^verbatim>\<open>SignalDependentSharedFutures\<close> does to the
  containers: the trace and the deque grow (the deque at its front), the on-hold store
  only loses entries, and no shared state is created or destroyed.
\<close>

definition extends :: "vtkThreadedCallbackQueue \<Rightarrow> vtkThreadedCallbackQueue \<Rightarrow> bool" where
  "extends s s' \<longleftrightarrow>
     (\<exists>evs. Trace s' = Trace s @ evs)
     \<and> (\<exists>new. InvokerQueue s' = map Some new @ InvokerQueue s)
     \<and> (\<exists>P. InvokersOnHold s' = filter P (InvokersOnHold s))
     \<and> dom (SharedStates s') = dom (SharedStates s)"

definition on_hold_keys :: "vtkThreadedCallbackQueue \<Rightarrow> addr set" where
  "on_hold_keys s = fst ` set (InvokersOnHold s)"

definition status_of :: "vtkThreadedCallbackQueue \<Rightarrow> addr \<Rightarrow> status option" where
  "status_of s a = map_option Status (SharedStates s a)"

text \<open>
  The on-hold store is a map (its keys are distinct), and it files every invoker under
  the invoker's own shared state.
\<close>

definition on_hold_wf :: "vtkThreadedCallbackQueue \<Rightarrow> bool" where
  "on_hold_wf s \<longleftrightarrow>
     distinct (map fst (InvokersOnHold s))
     \<and> (\<forall>p \<in> set (InvokersOnHold s). SharedState (snd p) = fst p)"

text \<open>
  What signalling does to the parts of the state that it does not own: the status of a
  shared state is left alone unless its entry leaves the on-hold store, and whatever is
  pushed to the deque (with status ENQUEUED) or collected for reinsertion (with status
  ON_HOLD) was an entry of the store and is one no longer.
\<close>

definition untouched ::
  "addr set \<Rightarrow> vtkThreadedCallbackQueue \<Rightarrow> vtkThreadedCallbackQueue \<Rightarrow> bool" where
  "untouched A s s' \<longleftrightarrow> (\<forall>a. a \<notin> A \<longrightarrow> status_of s' a = status_of s a)"

definition pushed :: "vtkThreadedCallbackQueue \<Rightarrow> vtkThreadedCallbackQueue \<Rightarrow> bool" where
  "pushed s s' \<longleftrightarrow>
     (\<exists>new. InvokerQueue s' = map Some new @ InvokerQueue s
        \<and> set new \<subseteq> snd ` set (InvokersOnHold s)
        \<and> SharedState ` set new \<inter> on_hold_keys s' = {}
        \<and> (\<forall>v \<in> set new. status_of s' (SharedState v) = Some ENQUEUED)
        \<and> distinct (map SharedState new))"

definition collected ::
  "vtkThreadedCallbackQueue \<Rightarrow> vtkThreadedCallbackQueue
     \<Rightarrow> InvokerBase list \<Rightarrow> InvokerBase list \<Rightarrow> bool" where
  "collected s s' acc acc' \<longleftrightarrow>
     (\<exists>coll. acc' = acc @ coll
        \<and> set coll \<subseteq> snd ` set (InvokersOnHold s)
        \<and> SharedState ` set coll \<inter> on_hold_keys s' = {}
        \<and> (\<forall>v \<in> set coll. status_of s' (SharedState v) = Some ON_HOLD)
        \<and> distinct (map SharedState coll))"

text \<open>
  The addressing scheme of the deque: the invoker in slot \<open>i\<close> carries the index of the
  front plus \<open>i\<close>, and the indices of the slots do not run past the largest 64-bit
  signed integer.
\<close>

definition queue_addressed :: "vtkThreadedCallbackQueue \<Rightarrow> bool" where
  "queue_addressed s \<longleftrightarrow>
     (case InvokerQueue s of
        [] \<Rightarrow> True
      | None # _ \<Rightarrow> False
      | Some front # _ \<Rightarrow>
          (case SharedStates s (SharedState front) of
             None \<Rightarrow> False
           | Some frontState \<Rightarrow>
               sint (InvokerIndex frontState) + int (length (InvokerQueue s)) \<le> 2 ^ 63
               \<and> (\<forall>(i, e) \<in> set (enumerate 0 (InvokerQueue s)).
                     case e of
                       None \<Rightarrow> True
                     | Some v \<Rightarrow>
                         (case SharedStates s (SharedState v) of
                            None \<Rightarrow> False
                          | Some x \<Rightarrow> InvokerIndex x = InvokerIndex frontState + of_nat i))))"

text \<open>
  What signalling needs of a state in order to run to its end: the on-hold store is well
  formed, the lists of dependents hold valid pointers, a task that is on hold with
  dependencies outstanding has its invoker in the on-hold store, and the front of the
  deque is an invoker with a valid shared state.
\<close>

definition front_valid :: "vtkThreadedCallbackQueue \<Rightarrow> bool" where
  "front_valid s \<longleftrightarrow>
     InvokerQueue s = []
     \<or> (\<exists>v rest. InvokerQueue s = Some v # rest \<and> SharedState v \<in> dom (SharedStates s))"

definition signal_ready :: "vtkThreadedCallbackQueue \<Rightarrow> bool" where
  "signal_ready s \<longleftrightarrow>
     on_hold_wf s
     \<and> (\<forall>a x. SharedStates s a = Some x \<longrightarrow>
           set (DependentSharedFutures x) \<subseteq> dom (SharedStates s))
     \<and> (\<forall>a x. SharedStates s a = Some x \<and> Status x = ON_HOLD
             \<and> 1 \<le> NumberOfPriorSharedFuturesRemaining x \<longrightarrow> a \<in> on_hold_keys s)
     \<and> front_valid s"

text \<open>
  Status transitions read off a trace. \<open>next_status\<close> is the chain
  ON_HOLD, ENQUEUED, RUNNING, DONE taken one step at a time; \<open>forward_status\<close> adds the
  step from ON_HOLD to RUNNING. \<open>transitions R \<sigma> evs\<close> replays the status writes of
  \<open>evs\<close> from the statuses \<open>\<sigma>\<close> and checks each write against \<open>R\<close>.
\<close>

fun next_status :: "status \<Rightarrow> status \<Rightarrow> bool" where
  "next_status ON_HOLD ENQUEUED = True"
| "next_status ENQUEUED RUNNING = True"
| "next_status RUNNING DONE = True"
| "next_status _ _ = False"

definition forward_status :: "status \<Rightarrow> status \<Rightarrow> bool" where
  "forward_status old new \<longleftrightarrow> next_status old new \<or> (old = ON_HOLD \<and> new = RUNNING)"

fun replay :: "(addr \<Rightarrow> status option) \<Rightarrow> event list \<Rightarrow> (addr \<Rightarrow> status option)" where
  "replay \<sigma> [] = \<sigma>"
| "replay \<sigma> (StatusWrite a st # es) = replay (\<sigma>(a \<mapsto> st)) es"
| "replay \<sigma> (e # es) = replay \<sigma> es"

fun transitions ::
  "(status \<Rightarrow> status \<Rightarrow> bool) \<Rightarrow> (addr \<Rightarrow> status option) \<Rightarrow> event list \<Rightarrow> bool" where
  "transitions R \<sigma> [] = True"
| "transitions R \<sigma> (StatusWrite a st # es) =
     (case \<sigma> a of
        None \<Rightarrow> False
      | Some old \<Rightarrow> R old st \<and> transitions R (\<sigma>(a \<mapsto> st)) es)"
| "transitions R \<sigma> (e # es) = transitions R \<sigma> es"

definition tracked :: "vtkThreadedCallbackQueue \<Rightarrow> vtkThreadedCallbackQueue \<Rightarrow> bool" where
  "tracked s s' \<longleftrightarrow>
     (\<exists>evs. Trace s' = Trace s @ evs
        \<and> transitions forward_status (status_of s) evs
        \<and> status_of s' = replay (status_of s) evs)"

text \<open>Every invoker in the deque belongs to a task whose status is ENQUEUED.\<close>

definition queue_enqueued :: "vtkThreadedCallbackQueue \<Rightarrow> bool" where
  "queue_enqueued s \<longleftrightarrow>
     (\<forall>v. Some v \<in> set (InvokerQueue s) \<longrightarrow> status_of s (SharedState v) = Some ENQUEUED)"

text \<open>
  The entry points of the source file as one family of operations, each run by some
  thread; the results other than the state are dropped.
\<close>

datatype operation =
    CallPop ThreadWorker
  | CallWorker thread_id ThreadWorker
  | CallTryInvoke addr
  | CallInvoke InvokerBase
  | CallSignalDependentSharedFutures InvokerBase
  | CallSetNumberOfThreads thread_id int
  | CallDestructor thread_id

fun perform ::
  "nat \<Rightarrow> operation \<Rightarrow> vtkThreadedCallbackQueue \<Rightarrow> error + vtkThreadedCallbackQueue" where
  "perform k (CallPop w) s = map_sum id snd (Pop k w s)"
| "perform k (CallWorker t w) s = map_sum id snd (ThreadWorker_run k t w s)"
| "perform k (CallTryInvoke state) s = map_sum id snd (TryInvoke k state s)"
| "perform k (CallInvoke invoker) s = Invoke k invoker s"
| "perform k (CallSignalDependentSharedFutures invoker) s =
     SignalDependentSharedFutures k invoker s"
| "perform k (CallSetNumberOfThreads t n) s = SetNumberOfThreads t n s"
| "perform k (CallDestructor t) s = Destructor t s"

text \<open>
  The pool as \<^verbatim>\<open>SetNumberOfThreads\<close> keeps it: the handles in \<^verbatim>\<open>Threads\<close> are distinct, and
  the thread in slot \<open>j\<close> is registered with an atomic index that holds \<open>j\<close>.
\<close>

definition pool_wf :: "vtkThreadedCallbackQueue \<Rightarrow> bool" where
  "pool_wf s \<longleftrightarrow>
     distinct (Threads s)
     \<and> (\<forall>j < length (Threads s).
           \<exists>c. ThreadIdToIndex s (Threads s ! j) = Some c \<and> AtomicInts s c = int j)"

section \<open>Example states\<close>

definition task ::
  "status \<Rightarrow> int \<Rightarrow> addr list \<Rightarrow> 64 word \<Rightarrow> InvokerFutureSharedStateBase" where
  "task st n ds i =
     \<lparr>Status = st, NumberOfPriorSharedFuturesRemaining = n, DependentSharedFutures = ds,
      InvokerIndex = i\<rparr>"

definition invoker_of :: "addr \<Rightarrow> bool \<Rightarrow> InvokerBase" where
  "invoker_of a hp = \<lparr>SharedState = a, IsHighPriority = hp\<rparr>"

text \<open>
  Task 1 has run; tasks 2, 3, 4 and 8 depend on it, task 5 depends on task 3, and task 4
  also waits for task 6. Task 3 is marked high priority. Tasks 6 and 7 sit in the deque.
\<close>

definition signalling_example :: vtkThreadedCallbackQueue where
  "signalling_example =
     empty_queue\<lparr>
       SharedStates :=
         [1 \<mapsto> task DONE 0 [2, 3, 4, 8] 0, 2 \<mapsto> task ON_HOLD 1 [] 0,
          3 \<mapsto> task ON_HOLD 1 [5] 0, 4 \<mapsto> task ON_HOLD 2 [] 0,
          5 \<mapsto> task ON_HOLD 1 [] 0, 6 \<mapsto> task ENQUEUED 0 [4] 10,
          7 \<mapsto> task ENQUEUED 0 [] 11, 8 \<mapsto> task ON_HOLD 1 [] 0],
       InvokersOnHold :=
         [(2, invoker_of 2 False), (3, invoker_of 3 True), (4, invoker_of 4 False),
          (5, invoker_of 5 False), (8, invoker_of 8 False)],
       InvokerQueue := [Some (invoker_of 6 False), Some (invoker_of 7 False)]\<rparr>"

text \<open>
  A deque of four slots addressed from index 5; the invoker of task 2 has been taken out
  of slot 1 and has run.
\<close>

definition deque_example :: vtkThreadedCallbackQueue where
  "deque_example =
     empty_queue\<lparr>
       SharedStates :=
         [1 \<mapsto> task ENQUEUED 0 [] 5, 2 \<mapsto> task DONE 0 [] 6,
          3 \<mapsto> task ENQUEUED 0 [] 7, 4 \<mapsto> task ENQUEUED 0 [] 8],
       InvokerQueue :=
         [Some (invoker_of 1 False), None, Some (invoker_of 3 False),
          Some (invoker_of 4 False)]\<rparr>"

text \<open>
  A pool of \<open>n\<close> workers as \<^verbatim>\<open>SetNumberOfThreads\<close> builds it from the empty queue: the
  threads 1 to \<open>n\<close>, the thread \<open>j + 1\<close> running a worker on the cell \<open>j\<close>, which holds the
  index \<open>j\<close>.
\<close>

definition worker_pool :: "nat \<Rightarrow> vtkThreadedCallbackQueue" where
  "worker_pool n = spawn_threads n (empty_queue\<lparr>NumberOfThreads := int n\<rparr>)"

text \<open>
  A pool of two workers after the target has been lowered to one, with task 6 waiting in
  the deque: the worker on cell 1 (thread 2) is demoted.
\<close>

definition demoted_example :: vtkThreadedCallbackQueue where
  "demoted_example =
     (worker_pool 2)\<lparr>
       NumberOfThreads := 1,
       SharedStates := [6 \<mapsto> task ENQUEUED 0 [] 0],
       InvokerQueue := [Some (invoker_of 6 False)]\<rparr>"

section \<open>Resizing after destruction has begun\<close>

lemma join_all_Destroying:
  "join_all this_thread ts s = Inr s' \<Longrightarrow> Destroying s' = Destroying s"
  by (induction ts arbitrary: s) (auto split: if_splits)

lemma Destructor_sets_Destroying:
  "Destructor this_thread s = Inr s' \<Longrightarrow> Destroying s'"
  by (auto simp: Destructor_def Sync_def split: if_splits dest: join_all_Destroying)

text \<open>
  C8: a SetNumberOfThreads request processed once the destroying flag is set returns
  normally and leaves the whole state as it was: no thread is started or joined (the
  trace is unchanged), and the thread handles, the NumberOfThreads target and the queue
  are untouched.
\<close>

theorem SetNumberOfThreads_while_destroying:
  "Destroying s \<Longrightarrow> SetNumberOfThreads this_thread n s = Inr s"
  by (simp add: SetNumberOfThreads_def)

theorem SetNumberOfThreads_while_destroying_witness:
  "\<exists>s'. Destructor 0 (spawn_threads 2 empty_queue) = Inr s' \<and> Destroying s'
     \<and> SetNumberOfThreads 0 5 s' = Inr s' \<and> SetNumberOfThreads 0 1 s' = Inr s'"
proof -
  obtain s' where d: "Destructor 0 (spawn_threads 2 empty_queue) = Inr s'"
    by (simp add: Destructor_def Sync_def empty_queue_def numeral_2_eq_2)
  have "Destroying s'"
    using d by (rule Destructor_sets_Destroying)
  then show ?thesis
    using d SetNumberOfThreads_while_destroying [of s' 0 5]
      SetNumberOfThreads_while_destroying [of s' 0 1] by blast
qed

section \<open>Unfolding the mutually recursive functions\<close>

lemma Invoke_Suc_Inr:
  "Invoke (Suc k) v s = Inr s' \<longleftrightarrow>
     (\<exists>s1 s2. write_Status (SharedState v) RUNNING s = Inr s1 \<and> RunInvoker v s1 = Inr s2
        \<and> SignalDependentSharedFutures k v s2 = Inr s')"
  by (auto split: sum.splits)

lemma Signal_Inr:
  "SignalDependentSharedFutures k v s = Inr s' \<longleftrightarrow>
     (\<exists>x acc s1. SharedStates s (SharedState v) = Some x
        \<and> SignalDependentSharedFutures_iterate k (DependentSharedFutures x) [] s = Inr (acc, s1)
        \<and> SignalDependentSharedFutures_launch acc s1 = Inr s')"
  by (auto split: option.splits sum.splits)

lemma iterate_Cons_Inr:
  "SignalDependentSharedFutures_iterate k (f # rest) acc s = Inr (acc', s') \<longleftrightarrow>
     (\<exists>x. SharedStates s f = Some x \<and>
        (if Status x = ON_HOLD \<and> NumberOfPriorSharedFuturesRemaining x = 1 then
           \<exists>w s2. SignalDependentSharedFutures_take f
                     (SignalDependentSharedFutures_decrement f x s) = Inr (w, s2)
             \<and> (if IsHighPriority w then
                   \<exists>s3. Invoke k w s2 = Inr s3
                     \<and> SignalDependentSharedFutures_iterate k rest acc s3 = Inr (acc', s')
                 else SignalDependentSharedFutures_iterate k rest (acc @ [w]) s2 = Inr (acc', s'))
         else SignalDependentSharedFutures_iterate k rest acc
                (SignalDependentSharedFutures_decrement f x s) = Inr (acc', s')))"
  by (auto split: option.splits sum.splits)

declare Invoke.simps(2) [simp del]
declare SignalDependentSharedFutures.simps [simp del]
declare SignalDependentSharedFutures_iterate.simps(2) [simp del]

text \<open>
  A property of the results of the three functions follows from what it says about the
  elementary steps: induction on the bound, and inside it on the list of dependents.
\<close>

lemma Invoke_Signal_iterate_rule:
  assumes refl: "\<And>s. R s s"
    and trans: "\<And>s s1 s2. R s s1 \<Longrightarrow> R s1 s2 \<Longrightarrow> R s s2"
    and status: "\<And>a st s s'. write_Status a st s = Inr s' \<Longrightarrow> R s s'"
    and run: "\<And>v s s'. RunInvoker v s = Inr s' \<Longrightarrow> R s s'"
    and launch: "\<And>vs s s'. SignalDependentSharedFutures_launch vs s = Inr s' \<Longrightarrow> R s s'"
    and decrement: "\<And>f x s. SharedStates s f = Some x \<Longrightarrow>
                      R s (SignalDependentSharedFutures_decrement f x s)"
    and take: "\<And>f s w s'. SignalDependentSharedFutures_take f s = Inr (w, s') \<Longrightarrow> R s s'"
  shows "(\<forall>v s s'. Invoke k v s = Inr s' \<longrightarrow> R s s')
       \<and> (\<forall>v s s'. SignalDependentSharedFutures k v s = Inr s' \<longrightarrow> R s s')
       \<and> (\<forall>fs acc s acc' s'.
             SignalDependentSharedFutures_iterate k fs acc s = Inr (acc', s') \<longrightarrow> R s s')"
proof -
  have iter: "R s s'"
    if inv: "\<forall>v s s'. Invoke k v s = Inr s' \<longrightarrow> R s s'"
      and it: "SignalDependentSharedFutures_iterate k fs acc s = Inr (acc', s')"
    for k fs acc s acc' s'
    using it
  proof (induction fs arbitrary: acc s)
    case Nil
    then show ?case by (simp add: refl)
  next
    case (Cons f rest)
    from Cons.prems obtain x where x: "SharedStates s f = Some x"
      and c: "if Status x = ON_HOLD \<and> NumberOfPriorSharedFuturesRemaining x = 1 then
           \<exists>w s2. SignalDependentSharedFutures_take f
                     (SignalDependentSharedFutures_decrement f x s) = Inr (w, s2)
             \<and> (if IsHighPriority w then
                   \<exists>s3. Invoke k w s2 = Inr s3
                     \<and> SignalDependentSharedFutures_iterate k rest acc s3 = Inr (acc', s')
                 else SignalDependentSharedFutures_iterate k rest (acc @ [w]) s2 = Inr (acc', s'))
         else SignalDependentSharedFutures_iterate k rest acc
                (SignalDependentSharedFutures_decrement f x s) = Inr (acc', s')"
      unfolding iterate_Cons_Inr by blast
    note d = decrement [OF x]
    show ?case
    proof (cases "Status x = ON_HOLD \<and> NumberOfPriorSharedFuturesRemaining x = 1")
      case False
      with c Cons.IH d show ?thesis by (auto intro: trans)
    next
      case True
      with c obtain w s2 where
        t: "SignalDependentSharedFutures_take f (SignalDependentSharedFutures_decrement f x s) = Inr (w, s2)"
        and c2: "if IsHighPriority w then
                   \<exists>s3. Invoke k w s2 = Inr s3
                     \<and> SignalDependentSharedFutures_iterate k rest acc s3 = Inr (acc', s')
                 else SignalDependentSharedFutures_iterate k rest (acc @ [w]) s2 = Inr (acc', s')"
        by auto
      have r2: "R s s2" using d take [OF t] by (rule trans)
      show ?thesis
      proof (cases "IsHighPriority w")
        case True
        with c2 obtain s3 where "Invoke k w s2 = Inr s3"
          "SignalDependentSharedFutures_iterate k rest acc s3 = Inr (acc', s')" by auto
        with inv Cons.IH r2 show ?thesis by (blast intro: trans)
      next
        case False
        with c2 Cons.IH r2 show ?thesis by (auto intro: trans)
      qed
    qed
  qed
  have sig: "R s s'"
    if inv: "\<forall>v s s'. Invoke k v s = Inr s' \<longrightarrow> R s s'"
      and sg: "SignalDependentSharedFutures k v s = Inr s'"
    for k v s s'
  proof -
    from sg obtain x acc s1 where
      "SharedStates s (SharedState v) = Some x"
      "SignalDependentSharedFutures_iterate k (DependentSharedFutures x) [] s = Inr (acc, s1)"
      "SignalDependentSharedFutures_launch acc s1 = Inr s'"
      unfolding Signal_Inr by blast
    then show ?thesis using iter [OF inv] launch by (blast intro: trans)
  qed
  have "\<forall>v s s'. Invoke k v s = Inr s' \<longrightarrow> R s s'"
  proof (induction k)
    case 0
    show ?case by simp
  next
    case (Suc k)
    show ?case
    proof (intro allI impI)
      fix v s s'
      assume "Invoke (Suc k) v s = Inr s'"
      then obtain s1 s2 where "write_Status (SharedState v) RUNNING s = Inr s1"
        "RunInvoker v s1 = Inr s2" "SignalDependentSharedFutures k v s2 = Inr s'"
        unfolding Invoke_Suc_Inr by blast
      then have "R s s1" "R s1 s2" "R s2 s'"
        using status run sig [OF Suc] by blast+
      then show "R s s'" by (blast intro: trans)
    qed
  qed
  then show ?thesis using iter [of k] sig [of k] by blast
qed

lemma extendsI:
  "Trace s' = Trace s @ evs \<Longrightarrow> InvokerQueue s' = map Some new @ InvokerQueue s
   \<Longrightarrow> InvokersOnHold s' = filter P (InvokersOnHold s)
   \<Longrightarrow> dom (SharedStates s') = dom (SharedStates s) \<Longrightarrow> extends s s'"
  unfolding extends_def by blast

lemma extends_refl: "extends s s"
  by (rule extendsI [of _ _ "[]" "[]" "\<lambda>_. True"]) simp_all

lemma extends_trans: "extends s s1 \<Longrightarrow> extends s1 s2 \<Longrightarrow> extends s s2"
  unfolding extends_def
  apply (elim conjE exE)
  apply (intro conjI)
  apply (metis append.assoc)
  apply (metis append.assoc map_append)
  apply (metis filter_filter)
  apply simp
  done

lemma write_Status_extends: "write_Status a st s = Inr s' \<Longrightarrow> extends s s'"
  by (rule extendsI [of _ _ "[StatusWrite a st]" "[]" "\<lambda>_. True"])
     (auto simp: write_Status_def split: option.splits if_splits)

lemma RunInvoker_extends: "RunInvoker v s = Inr s' \<Longrightarrow> extends s s'"
  by (rule extendsI [of _ _ "[Payload (SharedState v), StatusWrite (SharedState v) DONE]" "[]" "\<lambda>_. True"])
     (auto simp: RunInvoker_def write_Status_def split: option.splits if_splits)

lemma decrement_extends:
  "SharedStates s f = Some x \<Longrightarrow> extends s (SignalDependentSharedFutures_decrement f x s)"
  by (rule extendsI [of _ _ "[]" "[]" "\<lambda>_. True"])
     (auto simp: SignalDependentSharedFutures_decrement_def split: if_splits)

lemma take_extends:
  "SignalDependentSharedFutures_take f s = Inr (w, s') \<Longrightarrow> extends s s'"
  by (rule extendsI [of _ _ "[]" "[]" "\<lambda>(k', _). f \<noteq> k'"])
     (auto simp: SignalDependentSharedFutures_take_def AList.delete_eq split: option.splits)

lemma reinsert_extends:
  "SignalDependentSharedFutures_reinsert vs i s = Inr s' \<Longrightarrow> extends s s'"
proof (induction vs i s rule: SignalDependentSharedFutures_reinsert.induct)
  case (1 index s)
  then show ?case by (simp add: extends_refl)
next
  case (2 invoker rest index s)
  from "2.prems" obtain st s1 where
    st: "SharedStates s (SharedState invoker) = Some st" "Status st = ON_HOLD"
    and w: "write_Status (SharedState invoker) ENQUEUED
              (s\<lparr>SharedStates := (SharedStates s)(SharedState invoker \<mapsto> st\<lparr>InvokerIndex := index - 1\<rparr>)\<rparr>) = Inr s1"
    and r: "SignalDependentSharedFutures_reinsert rest (index - 1)
                   (s1\<lparr>InvokerQueue := Some invoker # InvokerQueue s1\<rparr>) = Inr s'"
    by (auto split: option.splits if_splits sum.splits)
  have e1: "extends s (s1\<lparr>InvokerQueue := Some invoker # InvokerQueue s1\<rparr>)"
    using w st
    by (intro extendsI [of _ _ "[StatusWrite (SharedState invoker) ENQUEUED]" "[invoker]" "\<lambda>_. True"])
       (auto simp: write_Status_def split: option.splits if_splits)
  have "extends (s1\<lparr>InvokerQueue := Some invoker # InvokerQueue s1\<rparr>) s'"
    using "2.IH" st w r by auto
  with e1 show ?case by (rule extends_trans)
qed

lemma launch_extends:
  "SignalDependentSharedFutures_launch vs s = Inr s' \<Longrightarrow> extends s s'"
proof -
  assume a: "SignalDependentSharedFutures_launch vs s = Inr s'"
  then obtain s1 where s1: "extends s s1"
     and s': "s' = s1\<lparr>Trace := Trace s1 @ replicate (length vs) NotifyOne\<rparr>"
    by (auto simp: SignalDependentSharedFutures_launch_def extends_refl
          split: if_splits list.splits option.splits sum.splits dest: reinsert_extends)
  have "extends s1 s'"
    unfolding s'
    by (intro extendsI [of _ _ "replicate (length vs) NotifyOne" "[]" "\<lambda>_. True"]) auto
  with s1 show ?thesis by (rule extends_trans)
qed

lemma Invoke_Signal_iterate_extends:
  "(\<forall>v s s'. Invoke k v s = Inr s' \<longrightarrow> extends s s')
       \<and> (\<forall>v s s'. SignalDependentSharedFutures k v s = Inr s' \<longrightarrow> extends s s')
       \<and> (\<forall>fs acc s acc' s'.
             SignalDependentSharedFutures_iterate k fs acc s = Inr (acc', s') \<longrightarrow> extends s s')"
  by (rule Invoke_Signal_iterate_rule)
     (auto intro: extends_refl extends_trans write_Status_extends RunInvoker_extends
        launch_extends decrement_extends take_extends)

lemma Invoke_extends: "Invoke k v s = Inr s' \<Longrightarrow> extends s s'"
  using Invoke_Signal_iterate_extends by blast

lemma Signal_extends: "SignalDependentSharedFutures k v s = Inr s' \<Longrightarrow> extends s s'"
  using Invoke_Signal_iterate_extends by blast

lemma iterate_extends:
  "SignalDependentSharedFutures_iterate k fs acc s = Inr (acc', s') \<Longrightarrow> extends s s'"
  using Invoke_Signal_iterate_extends by blast

section \<open>Elementary steps\<close>

lemma write_Status_Inr:
  "write_Status a st s = Inr s' \<longleftrightarrow>
     (\<exists>x. SharedStates s a = Some x
        \<and> s' = s\<lparr>SharedStates := (SharedStates s)(a \<mapsto> x\<lparr>Status := st\<rparr>),
                  Trace := Trace s @ [StatusWrite a st]\<rparr>)"
  by (auto simp: write_Status_def split: option.splits)

lemma write_Status_Inl: "write_Status a st s = Inl e \<Longrightarrow> e = InvalidPointer"
  by (auto simp: write_Status_def split: option.splits)

lemma RunInvoker_Inr:
  "RunInvoker v s = Inr s' \<longleftrightarrow>
     (\<exists>x. SharedStates s (SharedState v) = Some x
        \<and> s' = s\<lparr>SharedStates := (SharedStates s)(SharedState v \<mapsto> x\<lparr>Status := DONE\<rparr>),
                  Trace := Trace s @ [Payload (SharedState v), StatusWrite (SharedState v) DONE]\<rparr>)"
  by (auto simp: RunInvoker_def write_Status_def split: option.splits)

lemma RunInvoker_Inl: "RunInvoker v s = Inl e \<Longrightarrow> e = InvalidPointer"
  by (auto simp: RunInvoker_def write_Status_def split: option.splits)

lemma status_of_write_Status:
  "write_Status a st s = Inr s' \<Longrightarrow> status_of s' = (status_of s)(a \<mapsto> st)"
  by (auto simp: write_Status_Inr status_of_def fun_eq_iff)

lemma status_of_RunInvoker:
  "RunInvoker v s = Inr s' \<Longrightarrow> status_of s' = (status_of s)(SharedState v \<mapsto> DONE)"
  by (auto simp: RunInvoker_Inr status_of_def fun_eq_iff)

lemma status_of_decrement:
  "SharedStates s f = Some x \<Longrightarrow>
     status_of (SignalDependentSharedFutures_decrement f x s) = status_of s"
  by (auto simp: SignalDependentSharedFutures_decrement_def status_of_def fun_eq_iff)

lemma take_Inr:
  "SignalDependentSharedFutures_take f s = Inr (w, s') \<longleftrightarrow>
     map_of (InvokersOnHold s) f = Some w
     \<and> s' = s\<lparr>InvokersOnHold := AList.delete f (InvokersOnHold s)\<rparr>"
  by (auto simp: SignalDependentSharedFutures_take_def split: option.splits)

lemma take_Inl: "SignalDependentSharedFutures_take f s = Inl e \<Longrightarrow> e = OnHoldEntryMissing"
  by (auto simp: SignalDependentSharedFutures_take_def split: option.splits)

lemma status_of_take:
  "SignalDependentSharedFutures_take f s = Inr (w, s') \<Longrightarrow> status_of s' = status_of s"
  by (auto simp: take_Inr status_of_def fun_eq_iff)

lemma on_hold_keys_take:
  "SignalDependentSharedFutures_take f s = Inr (w, s') \<Longrightarrow>
     on_hold_keys s' = on_hold_keys s - {f} \<and> (f, w) \<in> set (InvokersOnHold s)"
  by (force simp: take_Inr on_hold_keys_def AList.delete_eq dest: map_of_SomeD)

lemma extends_on_hold_keys: "extends s s' \<Longrightarrow> on_hold_keys s' \<subseteq> on_hold_keys s"
  by (auto simp: extends_def on_hold_keys_def)

lemma extends_on_hold_values:
  "extends s s' \<Longrightarrow> set (InvokersOnHold s') \<subseteq> set (InvokersOnHold s)"
  by (auto simp: extends_def)

lemma extends_on_hold_wf: "extends s s' \<Longrightarrow> on_hold_wf s \<Longrightarrow> on_hold_wf s'"
  by (auto simp: extends_def on_hold_wf_def distinct_map_filter)

section \<open>The reinsertion loop\<close>

lemma reinsert_Inr:
  "SignalDependentSharedFutures_reinsert vs i s = Inr s' \<Longrightarrow>
     InvokersOnHold s' = InvokersOnHold s
     \<and> InvokerQueue s' = map Some (rev vs) @ InvokerQueue s
     \<and> Trace s' = Trace s @ map (\<lambda>v. StatusWrite (SharedState v) ENQUEUED) vs
     \<and> status_of s' = (\<lambda>a. if a \<in> SharedState ` set vs then Some ENQUEUED else status_of s a)
     \<and> (\<forall>v \<in> set vs. status_of s (SharedState v) = Some ON_HOLD)
     \<and> distinct (map SharedState vs)"
proof (induction vs arbitrary: i s)
  case Nil
  then show ?case by (auto simp: fun_eq_iff)
next
  case (Cons v vs)
  from Cons.prems obtain st s1 where
    st: "SharedStates s (SharedState v) = Some st" "Status st = ON_HOLD"
    and w: "write_Status (SharedState v) ENQUEUED
              (s\<lparr>SharedStates := (SharedStates s)(SharedState v \<mapsto> st\<lparr>InvokerIndex := i - 1\<rparr>)\<rparr>) = Inr s1"
    and r: "SignalDependentSharedFutures_reinsert vs (i - 1)
                   (s1\<lparr>InvokerQueue := Some v # InvokerQueue s1\<rparr>) = Inr s'"
    by (auto split: option.splits if_splits sum.splits)
  let ?s2 = "s1\<lparr>InvokerQueue := Some v # InvokerQueue s1\<rparr>"
  have s2: "InvokersOnHold ?s2 = InvokersOnHold s" "InvokerQueue ?s2 = Some v # InvokerQueue s"
    "Trace ?s2 = Trace s @ [StatusWrite (SharedState v) ENQUEUED]"
    "status_of ?s2 = (status_of s)(SharedState v \<mapsto> ENQUEUED)"
    using w by (auto simp: write_Status_Inr status_of_def fun_eq_iff)
  note ih = Cons.IH [OF r]
  have nv: "SharedState v \<notin> SharedState ` set vs"
  proof
    assume "SharedState v \<in> SharedState ` set vs"
    then obtain u where "u \<in> set vs" "SharedState u = SharedState v" by auto
    with ih have "status_of ?s2 (SharedState v) = Some ON_HOLD" by metis
    with s2(4) show False by simp
  qed
  have "\<forall>u \<in> set vs. status_of s (SharedState u) = Some ON_HOLD"
  proof
    fix u assume u: "u \<in> set vs"
    with nv have "SharedState u \<noteq> SharedState v" by (metis image_eqI)
    moreover from ih u have "status_of ?s2 (SharedState u) = Some ON_HOLD" by blast
    ultimately show "status_of s (SharedState u) = Some ON_HOLD"
      using s2(4) by simp
  qed
  moreover have "status_of s (SharedState v) = Some ON_HOLD"
    using st by (simp add: status_of_def)
  ultimately show ?case
    using ih s2 nv by (auto simp: fun_eq_iff)
qed

lemma reinsert_total:
  "(\<forall>v \<in> set vs. status_of s (SharedState v) = Some ON_HOLD) \<Longrightarrow> distinct (map SharedState vs)
   \<Longrightarrow> \<exists>s'. SignalDependentSharedFutures_reinsert vs i s = Inr s'"
proof (induction vs arbitrary: i s)
  case Nil
  then show ?case by simp
next
  case (Cons v vs)
  from Cons.prems obtain st where st: "SharedStates s (SharedState v) = Some st" "Status st = ON_HOLD"
    by (auto simp: status_of_def)
  let ?s0 = "s\<lparr>SharedStates := (SharedStates s)(SharedState v \<mapsto> st\<lparr>InvokerIndex := i - 1\<rparr>)\<rparr>"
  obtain s1 where w: "write_Status (SharedState v) ENQUEUED ?s0 = Inr s1"
    by (auto simp: write_Status_Inr)
  let ?s2 = "s1\<lparr>InvokerQueue := Some v # InvokerQueue s1\<rparr>"
  have "status_of ?s2 = (status_of s)(SharedState v \<mapsto> ENQUEUED)"
    using w by (auto simp: write_Status_Inr status_of_def fun_eq_iff)
  moreover have "\<forall>u \<in> set vs. SharedState u \<noteq> SharedState v"
    using Cons.prems(2) by (metis distinct.simps(2) image_eqI list.simps(9) set_map)
  ultimately have "\<forall>u \<in> set vs. status_of ?s2 (SharedState u) = Some ON_HOLD"
    using Cons.prems(1) by simp
  moreover have "distinct (map SharedState vs)" using Cons.prems by simp
  ultimately obtain s' where "SignalDependentSharedFutures_reinsert vs (i - 1) ?s2 = Inr s'"
    using Cons.IH by blast
  then show ?case using st w by simp
qed

lemma reinsert_Inl:
  "SignalDependentSharedFutures_reinsert vs i s = Inl e \<Longrightarrow>
     e = AssertionFailed \<or> e = InvalidPointer"
proof (induction vs arbitrary: i s)
  case Nil
  then show ?case by simp
next
  case (Cons v vs)
  then show ?case
    by (auto split: option.splits if_splits sum.splits dest: write_Status_Inl)
qed

section \<open>The frame of signalling\<close>

lemma launch_Inr:
  assumes "SignalDependentSharedFutures_launch vs s = Inr s'"
  shows "InvokersOnHold s' = InvokersOnHold s
     \<and> InvokerQueue s' = map Some (rev vs) @ InvokerQueue s
     \<and> Trace s' = Trace s @ map (\<lambda>v. StatusWrite (SharedState v) ENQUEUED) vs
                     @ replicate (length vs) NotifyOne
     \<and> status_of s' = (\<lambda>a. if a \<in> SharedState ` set vs then Some ENQUEUED else status_of s a)
     \<and> (\<forall>v \<in> set vs. status_of s (SharedState v) = Some ON_HOLD)
     \<and> distinct (map SharedState vs)"
proof (cases "vs = []")
  case True
  with assms show ?thesis
    by (auto simp: SignalDependentSharedFutures_launch_def status_of_def fun_eq_iff)
next
  case False
  with assms obtain i s1 where r: "SignalDependentSharedFutures_reinsert vs i s = Inr s1"
    and s': "s' = s1\<lparr>Trace := Trace s1 @ replicate (length vs) NotifyOne\<rparr>"
    by (auto simp: SignalDependentSharedFutures_launch_def
          split: list.splits option.splits sum.splits)
  have "status_of s' = status_of s1" unfolding s' by (simp add: status_of_def fun_eq_iff)
  with reinsert_Inr [OF r] show ?thesis unfolding s' by simp
qed

lemma launch_InrD:
  assumes "SignalDependentSharedFutures_launch vs s = Inr s'"
  shows "InvokersOnHold s' = InvokersOnHold s"
    and "InvokerQueue s' = map Some (rev vs) @ InvokerQueue s"
    and "\<And>a. status_of s' a = (if a \<in> SharedState ` set vs then Some ENQUEUED else status_of s a)"
    and "\<And>v. v \<in> set vs \<Longrightarrow> status_of s (SharedState v) = Some ON_HOLD"
    and "distinct (map SharedState vs)"
  using launch_Inr [OF assms] by simp_all

lemma launch_no_assert:
  assumes "\<forall>v \<in> set vs. status_of s (SharedState v) = Some ON_HOLD"
    and "distinct (map SharedState vs)"
  shows "SignalDependentSharedFutures_launch vs s \<noteq> Inl AssertionFailed"
proof -
  have "\<exists>s'. SignalDependentSharedFutures_reinsert vs i s = Inr s'" for i
    using assms by (rule reinsert_total)
  then show ?thesis
    by (auto simp: SignalDependentSharedFutures_launch_def
          split: list.splits option.splits sum.splits)
       (metis Inl_Inr_False)+
qed

lemma extends_values:
  "extends s s' \<Longrightarrow> snd ` set (InvokersOnHold s') \<subseteq> snd ` set (InvokersOnHold s)"
  using extends_on_hold_values by (metis image_mono)

lemma untouched_trans:
  "untouched A s s1 \<Longrightarrow> untouched B s1 s2 \<Longrightarrow> B \<subseteq> A \<Longrightarrow> untouched A s s2"
  unfolding untouched_def by (metis subsetD)

lemma untouched_mono: "untouched B s s' \<Longrightarrow> B \<subseteq> A \<Longrightarrow> untouched A s s'"
  unfolding untouched_def by (metis subsetD)

lemma untouched_trans2:
  "untouched A s s1 \<Longrightarrow> untouched B s1 s2 \<Longrightarrow> A \<subseteq> C \<Longrightarrow> B \<subseteq> C \<Longrightarrow> untouched C s s2"
  unfolding untouched_def by (metis subsetD)

lemma untouched_same: "status_of s' = status_of s \<Longrightarrow> untouched A s s'"
  unfolding untouched_def by simp

lemma pushed_same:
  "InvokerQueue s' = InvokerQueue s \<Longrightarrow> pushed s s'"
  unfolding pushed_def by (intro exI [of _ "[]"]) simp

lemma on_hold_wf_value_key:
  "on_hold_wf s \<Longrightarrow> v \<in> snd ` set (InvokersOnHold s) \<Longrightarrow> SharedState v \<in> on_hold_keys s"
  unfolding on_hold_wf_def on_hold_keys_def by force

lemma pushed_from:
  assumes "pushed t s'" "InvokerQueue t = InvokerQueue s"
    "snd ` set (InvokersOnHold t) \<subseteq> snd ` set (InvokersOnHold s)"
  shows "pushed s s'"
proof -
  from assms(1) obtain new where new: "InvokerQueue s' = map Some new @ InvokerQueue t"
    "set new \<subseteq> snd ` set (InvokersOnHold t)" "SharedState ` set new \<inter> on_hold_keys s' = {}"
    "\<forall>v \<in> set new. status_of s' (SharedState v) = Some ENQUEUED" "distinct (map SharedState new)"
    unfolding pushed_def by blast
  have "set new \<subseteq> snd ` set (InvokersOnHold s)" using new(2) assms(3) by blast
  with new(1,3,4,5) assms(2) show ?thesis unfolding pushed_def by auto
qed

lemma collected_from:
  assumes "collected t s' acc acc'"
    "snd ` set (InvokersOnHold t) \<subseteq> snd ` set (InvokersOnHold s)"
  shows "collected s s' acc acc'"
proof -
  from assms(1) obtain coll where coll: "acc' = acc @ coll"
    "set coll \<subseteq> snd ` set (InvokersOnHold t)" "SharedState ` set coll \<inter> on_hold_keys s' = {}"
    "\<forall>v \<in> set coll. status_of s' (SharedState v) = Some ON_HOLD" "distinct (map SharedState coll)"
    unfolding collected_def by blast
  have "set coll \<subseteq> snd ` set (InvokersOnHold s)" using coll(2) assms(2) by blast
  with coll(1,3,4,5) show ?thesis unfolding collected_def by auto
qed

lemma pushed_trans:
  assumes "pushed s s1" "pushed s1 s2" "extends s s1" "extends s1 s2"
    and u: "untouched (on_hold_keys s1 - on_hold_keys s2) s1 s2" and wf: "on_hold_wf s1"
  shows "pushed s s2"
proof -
  from assms(1) obtain n1 where n1: "InvokerQueue s1 = map Some n1 @ InvokerQueue s"
    "set n1 \<subseteq> snd ` set (InvokersOnHold s)" "SharedState ` set n1 \<inter> on_hold_keys s1 = {}"
    "\<forall>v \<in> set n1. status_of s1 (SharedState v) = Some ENQUEUED" "distinct (map SharedState n1)"
    unfolding pushed_def by blast
  from assms(2) obtain n2 where n2: "InvokerQueue s2 = map Some n2 @ InvokerQueue s1"
    "set n2 \<subseteq> snd ` set (InvokersOnHold s1)" "SharedState ` set n2 \<inter> on_hold_keys s2 = {}"
    "\<forall>v \<in> set n2. status_of s2 (SharedState v) = Some ENQUEUED" "distinct (map SharedState n2)"
    unfolding pushed_def by blast
  have "InvokerQueue s2 = map Some (n2 @ n1) @ InvokerQueue s" using n1 n2 by simp
  moreover have "set (n2 @ n1) \<subseteq> snd ` set (InvokersOnHold s)"
    using n1(2) n2(2) extends_values [OF assms(3)] by auto
  moreover have "SharedState ` set (n2 @ n1) \<inter> on_hold_keys s2 = {}"
    using n1(3) n2(3) extends_on_hold_keys [OF assms(4)] by auto
  moreover have "\<forall>v \<in> set (n2 @ n1). status_of s2 (SharedState v) = Some ENQUEUED"
  proof
    fix v assume "v \<in> set (n2 @ n1)"
    then consider "v \<in> set n2" | "v \<in> set n1" by auto
    then show "status_of s2 (SharedState v) = Some ENQUEUED"
    proof cases
      case 1
      with n2(4) show ?thesis by blast
    next
      case 2
      then have "SharedState v \<notin> on_hold_keys s1" using n1(3) by blast
      then have "status_of s2 (SharedState v) = status_of s1 (SharedState v)"
        using u by (simp add: untouched_def)
      with 2 n1(4) show ?thesis by simp
    qed
  qed
  moreover have "distinct (map SharedState (n2 @ n1))"
  proof -
    have "SharedState ` set n2 \<subseteq> on_hold_keys s1"
      using n2(2) on_hold_wf_value_key [OF wf] by blast
    then have "SharedState ` set n2 \<inter> SharedState ` set n1 = {}" using n1(3) by blast
    then show ?thesis using n1(5) n2(5) by simp
  qed
  ultimately show ?thesis unfolding pushed_def by blast
qed

lemma frame_iterate_step:
  assumes inv: "\<forall>v s s'. on_hold_wf s \<longrightarrow> Invoke k v s = Inr s' \<longrightarrow>
                  untouched (insert (SharedState v) (on_hold_keys s - on_hold_keys s')) s s' \<and> pushed s s'"
    and wf: "on_hold_wf s"
    and it: "SignalDependentSharedFutures_iterate k fs acc s = Inr (acc', s')"
  shows "untouched (on_hold_keys s - on_hold_keys s') s s' \<and> pushed s s' \<and> collected s s' acc acc'"
  using wf it
proof (induction fs arbitrary: acc s)
  case Nil
  then show ?case
    by (auto simp: untouched_def pushed_same collected_def)
next
  case (Cons f rest)
  from Cons.prems(2) obtain x where x: "SharedStates s f = Some x"
    and c: "if Status x = ON_HOLD \<and> NumberOfPriorSharedFuturesRemaining x = 1 then
         \<exists>w s2. SignalDependentSharedFutures_take f
                   (SignalDependentSharedFutures_decrement f x s) = Inr (w, s2)
           \<and> (if IsHighPriority w then
                 \<exists>s3. Invoke k w s2 = Inr s3
                   \<and> SignalDependentSharedFutures_iterate k rest acc s3 = Inr (acc', s')
               else SignalDependentSharedFutures_iterate k rest (acc @ [w]) s2 = Inr (acc', s'))
       else SignalDependentSharedFutures_iterate k rest acc
              (SignalDependentSharedFutures_decrement f x s) = Inr (acc', s')"
    unfolding iterate_Cons_Inr by blast
  let ?sd = "SignalDependentSharedFutures_decrement f x s"
  have sd: "status_of ?sd = status_of s" "InvokersOnHold ?sd = InvokersOnHold s"
    "InvokerQueue ?sd = InvokerQueue s" "on_hold_keys ?sd = on_hold_keys s"
    using x by (auto simp: status_of_decrement)
               (auto simp: SignalDependentSharedFutures_decrement_def on_hold_keys_def)
  have wfd: "on_hold_wf ?sd" using Cons.prems(1) sd(2) by (simp add: on_hold_wf_def)
  show ?case
  proof (cases "Status x = ON_HOLD \<and> NumberOfPriorSharedFuturesRemaining x = 1")
    case False
    with c have "SignalDependentSharedFutures_iterate k rest acc ?sd = Inr (acc', s')" by simp
    from Cons.IH [OF wfd this] have "untouched (on_hold_keys ?sd - on_hold_keys s') ?sd s'"
      "pushed ?sd s'" "collected ?sd s' acc acc'" by blast+
    then show ?thesis
      using sd pushed_from [of ?sd s' s] collected_from [of ?sd s' acc acc' s]
      by (simp add: untouched_def)
  next
    case True
    with c obtain w s2 where t: "SignalDependentSharedFutures_take f ?sd = Inr (w, s2)"
      and c2: "if IsHighPriority w then
                 \<exists>s3. Invoke k w s2 = Inr s3
                   \<and> SignalDependentSharedFutures_iterate k rest acc s3 = Inr (acc', s')
               else SignalDependentSharedFutures_iterate k rest (acc @ [w]) s2 = Inr (acc', s')"
      by auto
    have e2: "extends ?sd s2" using t by (rule take_extends)
    have wf2: "on_hold_wf s2" using e2 wfd by (rule extends_on_hold_wf)
    have s2: "status_of s2 = status_of s" "InvokerQueue s2 = InvokerQueue s"
      "on_hold_keys s2 = on_hold_keys s - {f}" "(f, w) \<in> set (InvokersOnHold s)"
      "snd ` set (InvokersOnHold s2) \<subseteq> snd ` set (InvokersOnHold s)"
      using status_of_take [OF t] on_hold_keys_take [OF t] sd extends_values [OF e2] t
      by (auto simp: take_Inr)
    have fw: "SharedState w = f" using s2(4) Cons.prems(1) by (force simp: on_hold_wf_def)
    have fk: "f \<in> on_hold_keys s" using s2(4) by (force simp: on_hold_keys_def)
    have stf: "status_of s f = Some ON_HOLD" using x True by (simp add: status_of_def)
    show ?thesis
    proof (cases "IsHighPriority w")
      case True
      with c2 obtain s3 where i3: "Invoke k w s2 = Inr s3"
        and it3: "SignalDependentSharedFutures_iterate k rest acc s3 = Inr (acc', s')" by auto
      have e3: "extends s2 s3" using i3 by (rule Invoke_extends)
      have wf3: "on_hold_wf s3" using e3 wf2 by (rule extends_on_hold_wf)
      have e4: "extends s3 s'" using it3 by (rule iterate_extends)
      from inv wf2 i3 have u3: "untouched (insert (SharedState w) (on_hold_keys s2 - on_hold_keys s3)) s2 s3"
        and p3: "pushed s2 s3" by blast+
      from Cons.IH [OF wf3 it3] have u4: "untouched (on_hold_keys s3 - on_hold_keys s') s3 s'"
        and p4: "pushed s3 s'" and c4: "collected s3 s' acc acc'" by blast+
      have k3: "on_hold_keys s3 \<subseteq> on_hold_keys s"
        using extends_on_hold_keys [OF e3] s2(3) by auto
      have v3: "snd ` set (InvokersOnHold s3) \<subseteq> snd ` set (InvokersOnHold s)"
        using extends_values [OF e3] s2(5) by auto
      have k4: "on_hold_keys s' \<subseteq> on_hold_keys s3" and k32: "on_hold_keys s3 \<subseteq> on_hold_keys s2"
        using extends_on_hold_keys [OF e4] extends_on_hold_keys [OF e3] by auto
      have u3': "untouched (insert (SharedState w) (on_hold_keys s2 - on_hold_keys s3)) s s3"
        using u3 s2(1) by (simp add: untouched_def)
      have sub1: "insert (SharedState w) (on_hold_keys s2 - on_hold_keys s3)
                       \<subseteq> on_hold_keys s - on_hold_keys s'"
        using fw fk s2(3) k4 k32 by auto
      have sub2: "on_hold_keys s3 - on_hold_keys s' \<subseteq> on_hold_keys s - on_hold_keys s'"
        using k3 by auto
      have u: "untouched (on_hold_keys s - on_hold_keys s') s s'"
        using u3' u4 sub1 sub2 by (rule untouched_trans2)
      have "pushed s2 s'" using p3 p4 e3 e4 u4 wf3 by (rule pushed_trans)
      then have p: "pushed s s'"
        using s2(2,5) by (rule pushed_from)
      have "collected s s' acc acc'"
        using c4 v3 by (rule collected_from)
      with u p show ?thesis by blast
    next
      case False
      with c2 have it2: "SignalDependentSharedFutures_iterate k rest (acc @ [w]) s2 = Inr (acc', s')"
        by simp
      have e4: "extends s2 s'" using it2 by (rule iterate_extends)
      from Cons.IH [OF wf2 it2] have u4: "untouched (on_hold_keys s2 - on_hold_keys s') s2 s'"
        and p4: "pushed s2 s'" and c4: "collected s2 s' (acc @ [w]) acc'" by blast+
      have u: "untouched (on_hold_keys s - on_hold_keys s') s s'"
        using u4 s2(1,3) by (auto simp: untouched_def)
      have p: "pushed s s'"
        using p4 s2(2,5) by (rule pushed_from)
      from c4 obtain coll where coll: "acc' = (acc @ [w]) @ coll"
        "set coll \<subseteq> snd ` set (InvokersOnHold s2)"
        "SharedState ` set coll \<inter> on_hold_keys s' = {}"
        "\<forall>v \<in> set coll. status_of s' (SharedState v) = Some ON_HOLD"
        "distinct (map SharedState coll)"
        unfolding collected_def by blast
      have fs': "f \<notin> on_hold_keys s'"
        using extends_on_hold_keys [OF e4] s2(3) by auto
      have "status_of s' f = Some ON_HOLD"
        using u4 s2(1,3) stf by (simp add: untouched_def)
      moreover have "f \<notin> SharedState ` set coll"
      proof
        assume "f \<in> SharedState ` set coll"
        then obtain v where "v \<in> set coll" "SharedState v = f" by auto
        with coll(2) on_hold_wf_value_key [OF wf2] have "f \<in> on_hold_keys s2" by blast
        with s2(3) show False by simp
      qed
      moreover have "w \<in> snd ` set (InvokersOnHold s)" using s2(4) by force
      moreover have "set coll \<subseteq> snd ` set (InvokersOnHold s)" using coll(2) s2(5) by blast
      ultimately have "collected s s' acc acc'"
        unfolding collected_def
        using coll(1,3,4,5) fw fs'
        by (intro exI [of _ "w # coll"]) auto
      with u p show ?thesis by blast
    qed
  qed
qed

lemma frame_Signal_step:
  assumes inv: "\<forall>v s s'. on_hold_wf s \<longrightarrow> Invoke k v s = Inr s' \<longrightarrow>
                  untouched (insert (SharedState v) (on_hold_keys s - on_hold_keys s')) s s' \<and> pushed s s'"
    and wf: "on_hold_wf s"
    and sg: "SignalDependentSharedFutures k v s = Inr s'"
  shows "untouched (on_hold_keys s - on_hold_keys s') s s' \<and> pushed s s'"
proof -
  from sg obtain x acc s1 where x: "SharedStates s (SharedState v) = Some x"
    and it: "SignalDependentSharedFutures_iterate k (DependentSharedFutures x) [] s = Inr (acc, s1)"
    and la: "SignalDependentSharedFutures_launch acc s1 = Inr s'"
    unfolding Signal_Inr by blast
  from frame_iterate_step [OF inv wf it] have u1: "untouched (on_hold_keys s - on_hold_keys s1) s s1"
    and p1: "pushed s s1" and c1: "collected s s1 [] acc" by blast+
  have e1: "extends s s1" using it by (rule iterate_extends)
  note l = launch_InrD [OF la]
  from c1 have acc: "set acc \<subseteq> snd ` set (InvokersOnHold s)"
    "SharedState ` set acc \<inter> on_hold_keys s1 = {}"
    unfolding collected_def by auto
  have ks: "on_hold_keys s' = on_hold_keys s1" using l(1) by (simp add: on_hold_keys_def)
  have ak: "SharedState ` set acc \<subseteq> on_hold_keys s"
    using acc(1) on_hold_wf_value_key [OF wf] by blast
  have "untouched (on_hold_keys s - on_hold_keys s') s1 s'"
    unfolding untouched_def
  proof (intro allI impI)
    fix a assume "a \<notin> on_hold_keys s - on_hold_keys s'"
    then have "a \<notin> SharedState ` set acc" using ak acc(2) ks by blast
    then show "status_of s' a = status_of s1 a" using l(3) by simp
  qed
  with u1 ks have u: "untouched (on_hold_keys s - on_hold_keys s') s s'"
    unfolding untouched_def by simp
  from p1 obtain n1 where n1: "InvokerQueue s1 = map Some n1 @ InvokerQueue s"
    "set n1 \<subseteq> snd ` set (InvokersOnHold s)" "SharedState ` set n1 \<inter> on_hold_keys s1 = {}"
    "\<forall>v \<in> set n1. status_of s1 (SharedState v) = Some ENQUEUED" "distinct (map SharedState n1)"
    unfolding pushed_def by blast
  have dj: "SharedState ` set acc \<inter> SharedState ` set n1 = {}"
  proof (rule ccontr)
    assume "SharedState ` set acc \<inter> SharedState ` set n1 \<noteq> {}"
    then obtain v u where vu: "v \<in> set acc" "u \<in> set n1" "SharedState v = SharedState u"
      by (auto simp: image_iff)
    from l(4) [OF vu(1)] n1(4) vu(2,3) show False by simp
  qed
  have "InvokerQueue s' = map Some (rev acc @ n1) @ InvokerQueue s" using l(2) n1(1) by simp
  moreover have "set (rev acc @ n1) \<subseteq> snd ` set (InvokersOnHold s)" using acc(1) n1(2) by auto
  moreover have "SharedState ` set (rev acc @ n1) \<inter> on_hold_keys s' = {}"
    using acc(2) n1(3) ks by auto
  moreover have "\<forall>v \<in> set (rev acc @ n1). status_of s' (SharedState v) = Some ENQUEUED"
  proof
    fix v assume "v \<in> set (rev acc @ n1)"
    then show "status_of s' (SharedState v) = Some ENQUEUED"
      using l(3) [of "SharedState v"] n1(4) by (cases "v \<in> set acc") auto
  qed
  moreover have "distinct (map SharedState (rev acc @ n1))"
    using l(5) n1(5) dj by (simp add: distinct_rev rev_map [symmetric])
  ultimately have "pushed s s'" unfolding pushed_def by blast
  with u show ?thesis by blast
qed

lemma frame_Invoke_all:
  "\<forall>v s s'. on_hold_wf s \<longrightarrow> Invoke k v s = Inr s' \<longrightarrow>
     untouched (insert (SharedState v) (on_hold_keys s - on_hold_keys s')) s s' \<and> pushed s s'"
proof (induction k)
  case 0
  show ?case by simp
next
  case (Suc k)
  show ?case
  proof (intro allI impI)
    fix v s s'
    assume wf: "on_hold_wf s" and i: "Invoke (Suc k) v s = Inr s'"
    from i obtain s1 s2 where w: "write_Status (SharedState v) RUNNING s = Inr s1"
      and r: "RunInvoker v s1 = Inr s2" and sg: "SignalDependentSharedFutures k v s2 = Inr s'"
      unfolding Invoke_Suc_Inr by blast
    have same: "InvokersOnHold s2 = InvokersOnHold s" "InvokerQueue s2 = InvokerQueue s"
      using w r by (auto simp: write_Status_Inr RunInvoker_Inr)
    then have wf2: "on_hold_wf s2" and k2: "on_hold_keys s2 = on_hold_keys s"
      using wf by (auto simp: on_hold_wf_def on_hold_keys_def)
    from frame_Signal_step [OF Suc wf2 sg] have u: "untouched (on_hold_keys s - on_hold_keys s') s2 s'"
      and p: "pushed s2 s'" using k2 by auto
    have "status_of s2 = ((status_of s)(SharedState v \<mapsto> RUNNING))(SharedState v \<mapsto> DONE)"
      using status_of_write_Status [OF w] status_of_RunInvoker [OF r] by simp
    then have "untouched (insert (SharedState v) (on_hold_keys s - on_hold_keys s')) s s'"
      using u unfolding untouched_def by simp
    moreover have "pushed s s'" using p same unfolding pushed_def by simp
    ultimately show "untouched (insert (SharedState v) (on_hold_keys s - on_hold_keys s')) s s' \<and> pushed s s'"
      by blast
  qed
qed

lemma frame_Invoke:
  "on_hold_wf s \<Longrightarrow> Invoke k v s = Inr s' \<Longrightarrow>
     untouched (insert (SharedState v) (on_hold_keys s - on_hold_keys s')) s s' \<and> pushed s s'"
  using frame_Invoke_all by blast

lemma frame_Signal:
  "on_hold_wf s \<Longrightarrow> SignalDependentSharedFutures k v s = Inr s' \<Longrightarrow>
     untouched (on_hold_keys s - on_hold_keys s') s s' \<and> pushed s s'"
  using frame_Signal_step [OF frame_Invoke_all] by blast

lemma frame_iterate:
  "on_hold_wf s \<Longrightarrow> SignalDependentSharedFutures_iterate k fs acc s = Inr (acc', s') \<Longrightarrow>
     untouched (on_hold_keys s - on_hold_keys s') s s' \<and> pushed s s' \<and> collected s s' acc acc'"
  using frame_iterate_step [OF frame_Invoke_all] by blast

section \<open>The assertion of the reinsertion loop\<close>

lemma no_assert_iterate_step:
  assumes inv: "\<forall>v s. on_hold_wf s \<longrightarrow> Invoke k v s \<noteq> Inl AssertionFailed"
    and wf: "on_hold_wf s"
  shows "SignalDependentSharedFutures_iterate k fs acc s \<noteq> Inl AssertionFailed"
  using wf
proof (induction fs arbitrary: acc s)
  case Nil
  show ?case by simp
next
  case (Cons f rest)
  show ?case
  proof (cases "SharedStates s f")
    case None
    then show ?thesis by (simp add: SignalDependentSharedFutures_iterate.simps(2))
  next
    case (Some x)
    let ?sd = "SignalDependentSharedFutures_decrement f x s"
    have wfd: "on_hold_wf ?sd"
      using Cons.prems by (simp add: on_hold_wf_def SignalDependentSharedFutures_decrement_def)
    show ?thesis
    proof (cases "Status x = ON_HOLD \<and> NumberOfPriorSharedFuturesRemaining x = 1")
      case False
      then show ?thesis
        using Some Cons.IH [OF wfd] by (auto simp: SignalDependentSharedFutures_iterate.simps(2))
    next
      case True
      show ?thesis
      proof (cases "SignalDependentSharedFutures_take f ?sd")
        case (Inl e)
        then show ?thesis
          using Some True take_Inl [OF Inl]
          by (simp add: SignalDependentSharedFutures_iterate.simps(2))
      next
        case (Inr p)
        obtain w s2 where p: "p = (w, s2)" by (cases p)
        have wf2: "on_hold_wf s2"
          using Inr p wfd take_extends extends_on_hold_wf by blast
        show ?thesis
        proof (cases "IsHighPriority w")
          case False
          then show ?thesis
            using Some True Inr p Cons.IH [OF wf2]
            by (simp add: SignalDependentSharedFutures_iterate.simps(2))
        next
          case hp: True
          show ?thesis
          proof (cases "Invoke k w s2")
            case (Inl e)
            with inv wf2 have "e \<noteq> AssertionFailed" by auto
            then show ?thesis
              using Some True Inr p hp Inl
              by (simp add: SignalDependentSharedFutures_iterate.simps(2))
          next
            case (Inr s3)
            have "on_hold_wf s3"
              using Inr wf2 Invoke_extends extends_on_hold_wf by blast
            from Cons.IH [OF this] show ?thesis
              using Some True \<open>SignalDependentSharedFutures_take f ?sd = Inr p\<close> p hp Inr
              by (simp add: SignalDependentSharedFutures_iterate.simps(2))
          qed
        qed
      qed
    qed
  qed
qed

lemma no_assert_Signal_step:
  assumes inv: "\<forall>v s. on_hold_wf s \<longrightarrow> Invoke k v s \<noteq> Inl AssertionFailed"
    and wf: "on_hold_wf s"
  shows "SignalDependentSharedFutures k v s \<noteq> Inl AssertionFailed"
proof (cases "SharedStates s (SharedState v)")
  case None
  then show ?thesis by (simp add: SignalDependentSharedFutures.simps)
next
  case (Some x)
  show ?thesis
  proof (cases "SignalDependentSharedFutures_iterate k (DependentSharedFutures x) [] s")
    case (Inl e)
    with no_assert_iterate_step [OF inv wf] have "e \<noteq> AssertionFailed" by metis
    with Some Inl show ?thesis by (simp add: SignalDependentSharedFutures.simps)
  next
    case (Inr p)
    obtain acc s1 where p: "p = (acc, s1)" by (cases p)
    from frame_iterate [OF wf Inr [unfolded p]] have "collected s s1 [] acc" by blast
    then have "\<forall>v \<in> set acc. status_of s1 (SharedState v) = Some ON_HOLD"
      "distinct (map SharedState acc)"
      unfolding collected_def by auto
    then have "SignalDependentSharedFutures_launch acc s1 \<noteq> Inl AssertionFailed"
      by (rule launch_no_assert)
    with Some Inr p show ?thesis by (simp add: SignalDependentSharedFutures.simps)
  qed
qed

lemma no_assert_Invoke_all:
  "\<forall>v s. on_hold_wf s \<longrightarrow> Invoke k v s \<noteq> Inl AssertionFailed"
proof (induction k)
  case 0
  show ?case by simp
next
  case (Suc k)
  show ?case
  proof (intro allI impI)
    fix v s
    assume wf: "on_hold_wf s"
    show "Invoke (Suc k) v s \<noteq> Inl AssertionFailed"
    proof (cases "write_Status (SharedState v) RUNNING s")
      case (Inl e)
      then show ?thesis using write_Status_Inl [OF Inl] by (simp add: Invoke.simps(2))
    next
      case (Inr s1)
      show ?thesis
      proof (cases "RunInvoker v s1")
        case (Inl e)
        then show ?thesis using Inr RunInvoker_Inl [OF Inl] by (simp add: Invoke.simps(2))
      next
        case r: (Inr s2)
        have "InvokersOnHold s2 = InvokersOnHold s"
          using Inr r by (auto simp: write_Status_Inr RunInvoker_Inr)
        then have "on_hold_wf s2" using wf by (simp add: on_hold_wf_def)
        from no_assert_Signal_step [OF Suc this] show ?thesis
          using Inr r by (simp add: Invoke.simps(2))
      qed
    qed
  qed
qed

lemma no_assert_Signal:
  "on_hold_wf s \<Longrightarrow> SignalDependentSharedFutures k v s \<noteq> Inl AssertionFailed"
  using no_assert_Signal_step [OF no_assert_Invoke_all] by blast

section \<open>Indices\<close>

lemma sint_sub_nat:
  fixes a :: "64 word"
  assumes "- (2 ^ 63) \<le> sint a - int m"
  shows "sint (a - of_nat m) = sint a - int m"
proof -
  have "a - of_nat m = word_of_int (sint a - int m)"
    by simp
  then have "sint (a - of_nat m) = signed_take_bit 63 (sint a - int m)"
    by (simp only: sint_sbintrunc') simp
  moreover have "sint a < 2 ^ 63" using sint_lt [of a] by simp
  ultimately show ?thesis
    using assms by (simp add: signed_take_bit_int_eq_self)
qed

lemma sint_add_nat:
  fixes a :: "64 word"
  assumes "sint a + int m < 2 ^ 63"
  shows "sint (a + of_nat m) = sint a + int m"
proof -
  have "a + of_nat m = word_of_int (sint a + int m)"
    by simp
  then have "sint (a + of_nat m) = signed_take_bit 63 (sint a + int m)"
    by (simp only: sint_sbintrunc') simp
  moreover have "- (2 ^ 63) \<le> sint a" using sint_ge [of a] by simp
  ultimately show ?thesis
    using assms by (simp add: signed_take_bit_int_eq_self)
qed

lemma unat_index_difference:
  fixes a b :: "64 word"
  assumes "a = b + of_nat i" "i < 2 ^ 64"
  shows "unat (a - b) = i"
proof -
  have "a - b = of_nat i" using assms(1) by simp
  then show ?thesis using assms(2) by (simp add: of_nat_inverse)
qed

lemma queue_addressed_slot:
  assumes "queue_addressed s" "InvokerQueue s = Some front # rest"
    "SharedStates s (SharedState front) = Some frontState"
    "i < length (InvokerQueue s)" "InvokerQueue s ! i = Some v"
  shows "\<exists>x. SharedStates s (SharedState v) = Some x
           \<and> InvokerIndex x = InvokerIndex frontState + of_nat i
           \<and> sint (InvokerIndex x) = sint (InvokerIndex frontState) + int i
           \<and> i < 2 ^ 64"
proof -
  have b: "sint (InvokerIndex frontState) + int (length (InvokerQueue s)) \<le> 2 ^ 63"
    and a: "\<forall>(i, e) \<in> set (enumerate 0 (InvokerQueue s)).
                     case e of
                       None \<Rightarrow> True
                     | Some v \<Rightarrow>
                         (case SharedStates s (SharedState v) of
                            None \<Rightarrow> False
                          | Some x \<Rightarrow> InvokerIndex x = InvokerIndex frontState + of_nat i)"
    using assms(1,2,3) by (auto simp: queue_addressed_def)
  have "(i, Some v) \<in> set (enumerate 0 (InvokerQueue s))"
    using assms(4,5) by (simp add: in_set_enumerate_eq)
  with a obtain x where x: "SharedStates s (SharedState v) = Some x"
    "InvokerIndex x = InvokerIndex frontState + of_nat i"
    by (fastforce split: option.splits)
  have "sint (InvokerIndex frontState) + int i < 2 ^ 63" using b assms(4) by simp
  then have "sint (InvokerIndex x) = sint (InvokerIndex frontState) + int i"
    unfolding x(2) by (rule sint_add_nat)
  moreover have "i < 2 ^ 64"
  proof -
    have "- (2 ^ 63) \<le> sint (InvokerIndex frontState)"
      using sint_ge [of "InvokerIndex frontState"] by simp
    with b assms(4) have "int i < 2 ^ 64" by simp
    then show ?thesis by (metis of_nat_less_iff of_nat_numeral of_nat_power)
  qed
  ultimately show ?thesis using x by blast
qed

section \<open>Reinsertion of the collected invokers\<close>

lemma reinsert_frame:
  "SignalDependentSharedFutures_reinsert vs i s = Inr s' \<Longrightarrow> a \<notin> SharedState ` set vs
   \<Longrightarrow> SharedStates s' a = SharedStates s a"
proof (induction vs arbitrary: i s)
  case Nil
  then show ?case by simp
next
  case (Cons v vs)
  from Cons.prems(1) obtain st s1 where
    st: "SharedStates s (SharedState v) = Some st"
    and w: "write_Status (SharedState v) ENQUEUED
              (s\<lparr>SharedStates := (SharedStates s)(SharedState v \<mapsto> st\<lparr>InvokerIndex := i - 1\<rparr>)\<rparr>) = Inr s1"
    and r: "SignalDependentSharedFutures_reinsert vs (i - 1)
                   (s1\<lparr>InvokerQueue := Some v # InvokerQueue s1\<rparr>) = Inr s'"
    by (auto split: option.splits if_splits sum.splits)
  have "SharedStates s' a = SharedStates (s1\<lparr>InvokerQueue := Some v # InvokerQueue s1\<rparr>) a"
    using Cons.IH [OF r] Cons.prems(2) by simp
  also have "\<dots> = SharedStates s a"
    using w Cons.prems(2) by (auto simp: write_Status_Inr)
  finally show ?case .
qed

lemma reinsert_indices:
  "SignalDependentSharedFutures_reinsert vs i s = Inr s' \<Longrightarrow> j < length vs \<Longrightarrow>
     \<exists>x. SharedStates s' (SharedState (vs ! j)) = Some x
        \<and> InvokerIndex x = i - of_nat (Suc j) \<and> Status x = ENQUEUED"
proof (induction vs arbitrary: i s j)
  case Nil
  then show ?case by simp
next
  case (Cons v vs)
  from Cons.prems(1) obtain st s1 where
    st: "SharedStates s (SharedState v) = Some st"
    and w: "write_Status (SharedState v) ENQUEUED
              (s\<lparr>SharedStates := (SharedStates s)(SharedState v \<mapsto> st\<lparr>InvokerIndex := i - 1\<rparr>)\<rparr>) = Inr s1"
    and r: "SignalDependentSharedFutures_reinsert vs (i - 1)
                   (s1\<lparr>InvokerQueue := Some v # InvokerQueue s1\<rparr>) = Inr s'"
    by (auto split: option.splits if_splits sum.splits)
  let ?s2 = "s1\<lparr>InvokerQueue := Some v # InvokerQueue s1\<rparr>"
  show ?case
  proof (cases j)
    case 0
    have "distinct (map SharedState (v # vs))"
      using reinsert_Inr [OF Cons.prems(1)] by blast
    then have "SharedState v \<notin> SharedState ` set vs" by simp
    then have "SharedStates s' (SharedState v) = SharedStates ?s2 (SharedState v)"
      using reinsert_frame [OF r] by blast
    also have "\<dots> = Some (st\<lparr>InvokerIndex := i - 1, Status := ENQUEUED\<rparr>)"
      using w by (auto simp: write_Status_Inr)
    finally show ?thesis using 0 by simp
  next
    case (Suc j')
    with Cons.prems(2) have "j' < length vs" by simp
    from Cons.IH [OF r this] show ?thesis using Suc by (simp add: algebra_simps)
  qed
qed

lemma Invoke_trace:
  assumes "Invoke k v s = Inr s'"
  shows "\<exists>evs. Trace s' = Trace s @ StatusWrite (SharedState v) RUNNING
                  # Payload (SharedState v) # StatusWrite (SharedState v) DONE # evs"
proof (cases k)
  case 0
  with assms show ?thesis by simp
next
  case (Suc n)
  with assms have "Invoke (Suc n) v s = Inr s'" by simp
  then obtain s1 s2 where w: "write_Status (SharedState v) RUNNING s = Inr s1"
    and r: "RunInvoker v s1 = Inr s2" and sg: "SignalDependentSharedFutures n v s2 = Inr s'"
    unfolding Invoke_Suc_Inr by blast
  from Signal_extends [OF sg] obtain evs where "Trace s' = Trace s2 @ evs"
    unfolding extends_def by blast
  moreover have "Trace s2 = Trace s @ [StatusWrite (SharedState v) RUNNING,
      Payload (SharedState v), StatusWrite (SharedState v) DONE]"
    using w r by (auto simp: write_Status_Inr RunInvoker_Inr)
  ultimately show ?thesis by simp
qed

section \<open>Reinsertion of the collected invokers\<close>

text \<open>
  C3: when SignalDependentSharedFutures has iterated over the dependents of the completed
  task and collected the invokers \<open>invokersToLaunch\<close> (state \<open>s1\<close>), the rest of the
  call gives the \<open>j\<close>-th of them the index \<open>base - (j + 1)\<close>, where \<open>base\<close> is the index
  of the front of the deque (the number of collected invokers when the deque is empty),
  sets its status to ENQUEUED and pushes it to the front of the deque; the trace gains
  one NotifyOne per collected invoker. Read as signed 64-bit numbers the new indices count
  down from \<open>base\<close> as long as they do not pass the smallest such number, and then each
  is below the index of every invoker already in a deque that follows the addressing
  scheme.
\<close>

theorem SignalDependentSharedFutures_reinserts_collected:
  assumes st: "SharedStates s (SharedState invoker) = Some invokerState"
    and it: "SignalDependentSharedFutures_iterate k (DependentSharedFutures invokerState) [] s
               = Inr (invokersToLaunch, s1)"
    and sg: "SignalDependentSharedFutures k invoker s = Inr s'"
    and ne: "invokersToLaunch \<noteq> []"
  shows "\<exists>base.
      (case InvokerQueue s1 of
         [] \<Rightarrow> base = of_nat (length invokersToLaunch)
       | front # _ \<Rightarrow>
           \<exists>f frontState. front = Some f \<and> SharedStates s1 (SharedState f) = Some frontState
              \<and> base = InvokerIndex frontState)
    \<and> (\<forall>j < length invokersToLaunch.
          \<exists>x. SharedStates s' (SharedState (invokersToLaunch ! j)) = Some x
             \<and> InvokerIndex x = base - of_nat (Suc j) \<and> Status x = ENQUEUED)
    \<and> InvokerQueue s' = map Some (rev invokersToLaunch) @ InvokerQueue s1
    \<and> Trace s' = Trace s1 @ map (\<lambda>v. StatusWrite (SharedState v) ENQUEUED) invokersToLaunch
                     @ replicate (length invokersToLaunch) NotifyOne
    \<and> (- (2 ^ 63) \<le> sint base - int (length invokersToLaunch) \<longrightarrow>
          (\<forall>j < length invokersToLaunch.
             sint (base - of_nat (Suc j)) = sint base - int (Suc j)
             \<and> (queue_addressed s1 \<longrightarrow>
                  (\<forall>v x. Some v \<in> set (InvokerQueue s1)
                      \<and> SharedStates s1 (SharedState v) = Some x
                      \<longrightarrow> sint (base - of_nat (Suc j)) < sint (InvokerIndex x)))))"
proof -
  have la: "SignalDependentSharedFutures_launch invokersToLaunch s1 = Inr s'"
    using sg st it by (simp add: SignalDependentSharedFutures.simps)
  note l = launch_Inr [OF la]
  define base where "base =
    (case InvokerQueue s1 of
       [] \<Rightarrow> of_nat (length invokersToLaunch)
     | front # _ \<Rightarrow> (case front of None \<Rightarrow> 0
          | Some f \<Rightarrow> (case SharedStates s1 (SharedState f) of None \<Rightarrow> 0
              | Some frontState \<Rightarrow> InvokerIndex frontState)))"
  from la ne obtain s2 where r: "SignalDependentSharedFutures_reinsert invokersToLaunch base s1 = Inr s2"
    and s': "s' = s2\<lparr>Trace := Trace s2 @ replicate (length invokersToLaunch) NotifyOne\<rparr>"
    and b: "case InvokerQueue s1 of
         [] \<Rightarrow> base = of_nat (length invokersToLaunch)
       | front # _ \<Rightarrow>
           \<exists>f frontState. front = Some f \<and> SharedStates s1 (SharedState f) = Some frontState
              \<and> base = InvokerIndex frontState"
    unfolding base_def
    by (auto simp: SignalDependentSharedFutures_launch_def
          split: list.splits option.splits sum.splits)
  have idx: "\<forall>j < length invokersToLaunch.
          \<exists>x. SharedStates s' (SharedState (invokersToLaunch ! j)) = Some x
             \<and> InvokerIndex x = base - of_nat (Suc j) \<and> Status x = ENQUEUED"
    using reinsert_indices [OF r] unfolding s' by simp
  have signed: "sint (base - of_nat (Suc j)) = sint base - int (Suc j)
             \<and> (queue_addressed s1 \<longrightarrow>
                  (\<forall>v x. Some v \<in> set (InvokerQueue s1)
                      \<and> SharedStates s1 (SharedState v) = Some x
                      \<longrightarrow> sint (base - of_nat (Suc j)) < sint (InvokerIndex x)))"
    if u: "- (2 ^ 63) \<le> sint base - int (length invokersToLaunch)"
      and j: "j < length invokersToLaunch" for j
  proof -
    have "- (2 ^ 63) \<le> sint base - int (Suc j)" using u j by simp
    then have e: "sint (base - of_nat (Suc j)) = sint base - int (Suc j)"
      by (rule sint_sub_nat)
    have "sint (base - of_nat (Suc j)) < sint (InvokerIndex x)"
      if qa: "queue_addressed s1" and v: "Some v \<in> set (InvokerQueue s1)"
        and x: "SharedStates s1 (SharedState v) = Some x" for v x
    proof -
      from v obtain front rest where q: "InvokerQueue s1 = front # rest"
        by (cases "InvokerQueue s1") auto
      with b obtain f frontState where f: "front = Some f"
        "SharedStates s1 (SharedState f) = Some frontState" "base = InvokerIndex frontState"
        by auto
      from v obtain i where i: "i < length (InvokerQueue s1)" "InvokerQueue s1 ! i = Some v"
        by (auto simp: in_set_conv_nth)
      from queue_addressed_slot [OF qa q [unfolded f(1)] f(2) i] x
      have "sint (InvokerIndex x) = sint base + int i" using f(3) by auto
      with e show ?thesis by simp
    qed
    with e show ?thesis by blast
  qed
  show ?thesis
    using b idx l signed by (intro exI [of _ base]) blast
qed

lemma signalling_example_iterate:
  "case SignalDependentSharedFutures_iterate 2 [2, 3, 4, 8] [] signalling_example of
     Inl _ \<Rightarrow> False
   | Inr (vs, s1) \<Rightarrow>
       vs = [invoker_of 2 False, invoker_of 8 False]
       \<and> InvokerQueue s1
           = [Some (invoker_of 5 False), Some (invoker_of 6 False), Some (invoker_of 7 False)]
       \<and> map_option InvokerIndex (SharedStates s1 5) = Some 9
       \<and> Trace s1 = [StatusWrite 3 RUNNING, Payload 3, StatusWrite 3 DONE,
                      StatusWrite 5 ENQUEUED, NotifyOne]"
  by code_simp

lemma signalling_example_Signal:
  "\<not> isl (SignalDependentSharedFutures 2 (invoker_of 1 False) signalling_example)"
  by code_simp

theorem SignalDependentSharedFutures_reinserts_collected_witness:
  "\<exists>s1 s'.
      SignalDependentSharedFutures_iterate 2 [2, 3, 4, 8] [] signalling_example
        = Inr ([invoker_of 2 False, invoker_of 8 False], s1)
      \<and> SignalDependentSharedFutures 2 (invoker_of 1 False) signalling_example = Inr s'
      \<and> (\<exists>x. SharedStates s' 2 = Some x \<and> InvokerIndex x = 8 \<and> Status x = ENQUEUED)
      \<and> (\<exists>x. SharedStates s' 8 = Some x \<and> InvokerIndex x = 7 \<and> Status x = ENQUEUED)
      \<and> InvokerQueue s'
          = [Some (invoker_of 8 False), Some (invoker_of 2 False), Some (invoker_of 5 False),
             Some (invoker_of 6 False), Some (invoker_of 7 False)]
      \<and> Trace s' = [StatusWrite 3 RUNNING, Payload 3, StatusWrite 3 DONE,
                     StatusWrite 5 ENQUEUED, NotifyOne,
                     StatusWrite 2 ENQUEUED, StatusWrite 8 ENQUEUED, NotifyOne, NotifyOne]"
proof -
  let ?vs = "[invoker_of 2 False, invoker_of 8 False]"
  have st: "SharedStates signalling_example (SharedState (invoker_of 1 False))
              = Some (task DONE 0 [2, 3, 4, 8] 0)"
    by (simp add: signalling_example_def invoker_of_def)
  obtain s1 where it: "SignalDependentSharedFutures_iterate 2
        (DependentSharedFutures (task DONE 0 [2, 3, 4, 8] 0)) [] signalling_example = Inr (?vs, s1)"
    and q1: "InvokerQueue s1
           = [Some (invoker_of 5 False), Some (invoker_of 6 False), Some (invoker_of 7 False)]"
    and i1: "map_option InvokerIndex (SharedStates s1 5) = Some 9"
    and t1: "Trace s1 = [StatusWrite 3 RUNNING, Payload 3, StatusWrite 3 DONE,
                      StatusWrite 5 ENQUEUED, NotifyOne]"
    using signalling_example_iterate by (auto simp: task_def split: sum.splits)
  obtain s' where sg: "SignalDependentSharedFutures 2 (invoker_of 1 False) signalling_example = Inr s'"
    using signalling_example_Signal
    by (cases "SignalDependentSharedFutures 2 (invoker_of 1 False) signalling_example") auto
  from SignalDependentSharedFutures_reinserts_collected [OF st it sg]
  obtain base where b: "\<exists>f frontState. Some (invoker_of 5 False) = Some f
        \<and> SharedStates s1 (SharedState f) = Some frontState \<and> base = InvokerIndex frontState"
    and idx: "\<forall>j < length ?vs. \<exists>x. SharedStates s' (SharedState (?vs ! j)) = Some x
             \<and> InvokerIndex x = base - of_nat (Suc j) \<and> Status x = ENQUEUED"
    and q: "InvokerQueue s' = map Some (rev ?vs) @ InvokerQueue s1"
    and t: "Trace s' = Trace s1 @ map (\<lambda>v. StatusWrite (SharedState v) ENQUEUED) ?vs
                     @ replicate (length ?vs) NotifyOne"
    unfolding q1 by auto
  from b i1 have base: "base = 9" by (auto simp: invoker_of_def)
  from idx [rule_format, of 0] idx [rule_format, of 1] base
  have "\<exists>x. SharedStates s' 2 = Some x \<and> InvokerIndex x = 8 \<and> Status x = ENQUEUED"
    "\<exists>x. SharedStates s' 8 = Some x \<and> InvokerIndex x = 7 \<and> Status x = ENQUEUED"
    by (auto simp: invoker_of_def)
  moreover have "Trace s' = [StatusWrite 3 RUNNING, Payload 3, StatusWrite 3 DONE,
                     StatusWrite 5 ENQUEUED, NotifyOne,
                     StatusWrite 2 ENQUEUED, StatusWrite 8 ENQUEUED, NotifyOne, NotifyOne]"
    using t t1 by (simp add: invoker_of_def numeral_2_eq_2)
  ultimately show ?thesis
    using it sg q q1 by (auto simp: task_def)
qed

section \<open>TryInvoke\<close>

lemma PopFrontNullptr_loop_front:
  "PopFrontNullptr_loop q = [] \<or> (\<exists>v q'. PopFrontNullptr_loop q = Some v # q')"
  by (induction q rule: PopFrontNullptr_loop.induct) auto

lemma PopFrontNullptr_loop_dropWhile:
  "PopFrontNullptr_loop q = dropWhile (\<lambda>x. x = None) q"
  by (induction q rule: PopFrontNullptr_loop.induct) auto

text \<open>
  C5: when the target's invoker sits in slot \<open>i\<close> of the deque and the indices follow
  the addressing scheme at that slot, the lambda of TryInvoke computes \<open>i\<close> as the
  target's index minus the front's index and returns the invoker of exactly that slot. A
  slot other than the front is left behind as a null entry; when the slot is the front,
  the front is popped and the leading null entries are stripped, so that the deque is
  then empty or starts with an invoker.
\<close>

theorem TryInvoke_take_target:
  assumes st: "SharedStates s state = Some st" "Status st = ENQUEUED"
    and q: "InvokerQueue s = Some front # rest"
    and fs: "SharedStates s (SharedState front) = Some frontState"
    and slot: "i < length (InvokerQueue s)" "InvokerQueue s ! i = Some target"
      "SharedState target = state"
    and idx: "InvokerIndex st = InvokerIndex frontState + of_nat i"
    and len: "length (InvokerQueue s) \<le> 2 ^ 64"
  shows "\<exists>s'. TryInvoke_take state s = Inr (Some target, s')
           \<and> unat (InvokerIndex st - InvokerIndex frontState) = i
           \<and> s' = s\<lparr>InvokerQueue :=
                     (if i = 0 then PopFrontNullptr_loop rest else (InvokerQueue s)[i := None])\<rparr>
           \<and> (i = 0 \<longrightarrow> InvokerQueue s' = [] \<or> (\<exists>v q'. InvokerQueue s' = Some v # q'))"
proof -
  have i: "unat (InvokerIndex st - InvokerIndex frontState) = i"
    using idx slot(1) len by (intro unat_index_difference) auto
  have z: "InvokerIndex st - InvokerIndex frontState = 0 \<longleftrightarrow> i = 0"
    using i by (metis unat_eq_0)
  show ?thesis
  proof (cases "i = 0")
    case True
    then show ?thesis
      using st q fs slot i z PopFrontNullptr_loop_front [of rest]
      by (auto simp: TryInvoke_take_def PopFrontNullptr_def)
  next
    case False
    then show ?thesis
      using st q fs slot i z
      by (auto simp: TryInvoke_take_def Let_def)
  qed
qed

theorem TryInvoke_take_target_witness:
  "TryInvoke_take 3 deque_example
     = Inr (Some (invoker_of 3 False),
            deque_example\<lparr>InvokerQueue :=
              [Some (invoker_of 1 False), None, None, Some (invoker_of 4 False)]\<rparr>)
   \<and> TryInvoke_take 1 deque_example
     = Inr (Some (invoker_of 1 False),
            deque_example\<lparr>InvokerQueue :=
              [Some (invoker_of 3 False), Some (invoker_of 4 False)]\<rparr>)"
proof -
  have q: "InvokerQueue deque_example
      = Some (invoker_of 1 False) # [None, Some (invoker_of 3 False), Some (invoker_of 4 False)]"
    by (simp add: deque_example_def)
  have f: "SharedStates deque_example (SharedState (invoker_of 1 False))
             = Some (task ENQUEUED 0 [] 5)"
    by (simp add: deque_example_def invoker_of_def)
  have "\<exists>s'. TryInvoke_take 3 deque_example = Inr (Some (invoker_of 3 False), s')
           \<and> unat (InvokerIndex (task ENQUEUED 0 [] 7) - InvokerIndex (task ENQUEUED 0 [] 5)) = 2
           \<and> s' = deque_example\<lparr>InvokerQueue :=
                     (if (2::nat) = 0
                      then PopFrontNullptr_loop
                             [None, Some (invoker_of 3 False), Some (invoker_of 4 False)]
                      else (InvokerQueue deque_example)[2 := None])\<rparr>
           \<and> ((2::nat) = 0 \<longrightarrow> InvokerQueue s' = [] \<or> (\<exists>v q'. InvokerQueue s' = Some v # q'))"
    by (rule TryInvoke_take_target [OF _ _ q f])
       (simp_all add: deque_example_def invoker_of_def task_def)
  moreover have "\<exists>s'. TryInvoke_take 1 deque_example = Inr (Some (invoker_of 1 False), s')
           \<and> unat (InvokerIndex (task ENQUEUED 0 [] 5) - InvokerIndex (task ENQUEUED 0 [] 5)) = 0
           \<and> s' = deque_example\<lparr>InvokerQueue :=
                     (if (0::nat) = 0
                      then PopFrontNullptr_loop
                             [None, Some (invoker_of 3 False), Some (invoker_of 4 False)]
                      else (InvokerQueue deque_example)[0 := None])\<rparr>
           \<and> ((0::nat) = 0 \<longrightarrow> InvokerQueue s' = [] \<or> (\<exists>v q'. InvokerQueue s' = Some v # q'))"
    by (rule TryInvoke_take_target [OF _ _ q f])
       (simp_all add: deque_example_def invoker_of_def task_def)
  ultimately show ?thesis
    by (auto simp: deque_example_def)
qed

lemma TryInvoke_take_Some:
  assumes "TryInvoke_take state s = Inr (Some taken, s1)"
  shows "\<exists>st front rest frontState j.
           SharedStates s state = Some st \<and> Status st = ENQUEUED
           \<and> InvokerQueue s = Some front # rest
           \<and> SharedStates s (SharedState front) = Some frontState
           \<and> j = unat (InvokerIndex st - InvokerIndex frontState)
           \<and> j < length (InvokerQueue s) \<and> InvokerQueue s ! j = Some taken
           \<and> s1 = s\<lparr>InvokerQueue :=
                     (if j = 0 then PopFrontNullptr_loop rest else (InvokerQueue s)[j := None])\<rparr>"
proof -
  from assms obtain st where st: "SharedStates s state = Some st" "Status st = ENQUEUED"
    by (auto simp: TryInvoke_take_def split: option.splits if_splits)
  from assms st obtain front rest where q: "InvokerQueue s = Some front # rest"
    by (auto simp: TryInvoke_take_def split: option.splits if_splits list.splits)
  from assms st q obtain frontState where
    fs: "SharedStates s (SharedState front) = Some frontState"
    by (auto simp: TryInvoke_take_def split: option.splits if_splits list.splits)
  let ?index = "InvokerIndex st - InvokerIndex frontState"
  have z: "?index = 0 \<longleftrightarrow> unat ?index = 0" by (metis unat_eq_0)
  show ?thesis
    using assms st q fs z
    by (cases "?index = 0")
       (auto simp: TryInvoke_take_def PopFrontNullptr_def Let_def split: if_splits)
qed

lemma TryInvoke_True:
  "TryInvoke k state s = Inr (True, s') \<longleftrightarrow>
     (\<exists>taken s1. TryInvoke_take state s = Inr (Some taken, s1) \<and> Invoke k taken s1 = Inr s')"
  by (auto simp: TryInvoke_def split: sum.splits option.splits prod.splits)

text \<open>
  C10: when the target's status is not ENQUEUED or the deque is empty, TryInvoke returns
  false and the state (the target's fields, the deque, the trace) is what it was. It
  returns true only after it has taken a non-null invoker out of the slot computed from
  the target's index and has run it; in a deque that follows the addressing scheme and
  holds the target's invoker, that invoker is the target's.
\<close>

theorem TryInvoke_outcome:
  assumes st: "SharedStates s state = Some st"
  shows "(Status st \<noteq> ENQUEUED \<or> InvokerQueue s = [] \<longrightarrow> TryInvoke k state s = Inr (False, s))
     \<and> (\<forall>s'. TryInvoke k state s = Inr (True, s') \<longrightarrow>
          Status st = ENQUEUED
          \<and> (\<exists>j taken s1. j < length (InvokerQueue s) \<and> InvokerQueue s ! j = Some taken
               \<and> TryInvoke_take state s = Inr (Some taken, s1)
               \<and> s1 = s\<lparr>InvokerQueue :=
                         (if j = 0 then PopFrontNullptr_loop (tl (InvokerQueue s))
                          else (InvokerQueue s)[j := None])\<rparr>
               \<and> Invoke k taken s1 = Inr s'
               \<and> (\<exists>evs. Trace s' = Trace s @ StatusWrite (SharedState taken) RUNNING
                             # Payload (SharedState taken)
                             # StatusWrite (SharedState taken) DONE # evs)
               \<and> (queue_addressed s
                    \<and> (\<exists>v. Some v \<in> set (InvokerQueue s) \<and> SharedState v = state)
                    \<longrightarrow> SharedState taken = state)))"
proof (intro conjI allI impI)
  assume "Status st \<noteq> ENQUEUED \<or> InvokerQueue s = []"
  then show "TryInvoke k state s = Inr (False, s)"
    using st by (auto simp: TryInvoke_def TryInvoke_take_def)
next
  fix s'
  assume t: "TryInvoke k state s = Inr (True, s')"
  then obtain taken s1 where tk: "TryInvoke_take state s = Inr (Some taken, s1)"
    and iv: "Invoke k taken s1 = Inr s'"
    unfolding TryInvoke_True by blast
  from TryInvoke_take_Some [OF tk] st obtain front rest frontState j where
    en: "Status st = ENQUEUED" and q: "InvokerQueue s = Some front # rest"
    and fs: "SharedStates s (SharedState front) = Some frontState"
    and j: "j = unat (InvokerIndex st - InvokerIndex frontState)"
      "j < length (InvokerQueue s)" "InvokerQueue s ! j = Some taken"
    and s1: "s1 = s\<lparr>InvokerQueue :=
                     (if j = 0 then PopFrontNullptr_loop rest else (InvokerQueue s)[j := None])\<rparr>"
    by auto
  show "Status st = ENQUEUED" by (rule en)
  have tr: "\<exists>evs. Trace s' = Trace s @ StatusWrite (SharedState taken) RUNNING
                             # Payload (SharedState taken)
                             # StatusWrite (SharedState taken) DONE # evs"
    using Invoke_trace [OF iv] s1 by simp
  have own: "SharedState taken = state"
    if qa: "queue_addressed s"
      and h: "\<exists>v. Some v \<in> set (InvokerQueue s) \<and> SharedState v = state"
  proof -
    from h obtain v i where v: "i < length (InvokerQueue s)" "InvokerQueue s ! i = Some v"
      "SharedState v = state"
      by (auto simp: in_set_conv_nth)
    from queue_addressed_slot [OF qa q fs v(1,2)] st v(3)
    have "InvokerIndex st = InvokerIndex frontState + of_nat i" "i < 2 ^ 64" by auto
    then have "j = i" unfolding j(1) by (rule unat_index_difference)
    with j(3) v(2,3) show ?thesis by simp
  qed
  show "\<exists>j taken s1. j < length (InvokerQueue s) \<and> InvokerQueue s ! j = Some taken
               \<and> TryInvoke_take state s = Inr (Some taken, s1)
               \<and> s1 = s\<lparr>InvokerQueue :=
                         (if j = 0 then PopFrontNullptr_loop (tl (InvokerQueue s))
                          else (InvokerQueue s)[j := None])\<rparr>
               \<and> Invoke k taken s1 = Inr s'
               \<and> (\<exists>evs. Trace s' = Trace s @ StatusWrite (SharedState taken) RUNNING
                             # Payload (SharedState taken)
                             # StatusWrite (SharedState taken) DONE # evs)
               \<and> (queue_addressed s
                    \<and> (\<exists>v. Some v \<in> set (InvokerQueue s) \<and> SharedState v = state)
                    \<longrightarrow> SharedState taken = state)"
    using j(2,3) tk s1 q iv tr own
    by (intro exI [of _ j] exI [of _ taken] exI [of _ s1]) auto
qed

lemma deque_example_addressed: "queue_addressed deque_example"
  by (simp add: queue_addressed_def deque_example_def invoker_of_def task_def)

lemma deque_example_TryInvoke:
  "case TryInvoke 1 3 deque_example of
     Inl _ \<Rightarrow> False
   | Inr (b, s') \<Rightarrow>
       b \<and> Trace s' = [StatusWrite 3 RUNNING, Payload 3, StatusWrite 3 DONE]
       \<and> InvokerQueue s' = [Some (invoker_of 1 False), None, None, Some (invoker_of 4 False)]"
  by code_simp

theorem TryInvoke_outcome_witness:
  "TryInvoke 1 2 deque_example = Inr (False, deque_example)
   \<and> (\<exists>s' j taken s1.
         TryInvoke 1 3 deque_example = Inr (True, s')
         \<and> j < length (InvokerQueue deque_example)
         \<and> InvokerQueue deque_example ! j = Some taken \<and> SharedState taken = 3
         \<and> TryInvoke_take 3 deque_example = Inr (Some taken, s1)
         \<and> Invoke 1 taken s1 = Inr s'
         \<and> Trace s' = [StatusWrite 3 RUNNING, Payload 3, StatusWrite 3 DONE]
         \<and> InvokerQueue s'
             = [Some (invoker_of 1 False), None, None, Some (invoker_of 4 False)])"
proof -
  have s2: "SharedStates deque_example 2 = Some (task DONE 0 [] 6)"
    and s3: "SharedStates deque_example 3 = Some (task ENQUEUED 0 [] 7)"
    by (simp_all add: deque_example_def)
  have a: "TryInvoke 1 2 deque_example = Inr (False, deque_example)"
    using TryInvoke_outcome [OF s2, of 1] by (simp add: task_def)
  obtain s' where t: "TryInvoke 1 3 deque_example = Inr (True, s')"
    and tr: "Trace s' = [StatusWrite 3 RUNNING, Payload 3, StatusWrite 3 DONE]"
    and q: "InvokerQueue s' = [Some (invoker_of 1 False), None, None, Some (invoker_of 4 False)]"
    using deque_example_TryInvoke by (auto split: sum.splits)
  have h: "\<exists>v. Some v \<in> set (InvokerQueue deque_example) \<and> SharedState v = 3"
    by (intro exI [of _ "invoker_of 3 False"]) (simp add: deque_example_def invoker_of_def)
  from TryInvoke_outcome [OF s3, of 1] t deque_example_addressed h
  obtain j taken s1 where "j < length (InvokerQueue deque_example)"
    "InvokerQueue deque_example ! j = Some taken" "SharedState taken = 3"
    "TryInvoke_take 3 deque_example = Inr (Some taken, s1)" "Invoke 1 taken s1 = Inr s'"
    by blast
  with a t tr q show ?thesis by blast
qed

section \<open>Signalling runs to its end\<close>

lemma signal_ready_on_hold_wf: "signal_ready s \<Longrightarrow> on_hold_wf s"
  by (simp add: signal_ready_def)

lemma signal_ready_cong:
  "InvokersOnHold s' = InvokersOnHold s \<Longrightarrow> SharedStates s' = SharedStates s
   \<Longrightarrow> InvokerQueue s' = InvokerQueue s \<Longrightarrow> signal_ready s' = signal_ready s"
  by (simp add: signal_ready_def on_hold_wf_def on_hold_keys_def front_valid_def)

lemma signal_ready_write_Status:
  assumes "signal_ready s" "write_Status a st s = Inr s'" "st \<noteq> ON_HOLD"
  shows "signal_ready s'"
proof -
  from assms(2) obtain x where x: "SharedStates s a = Some x"
    and s': "s' = s\<lparr>SharedStates := (SharedStates s)(a \<mapsto> x\<lparr>Status := st\<rparr>),
                  Trace := Trace s @ [StatusWrite a st]\<rparr>"
    unfolding write_Status_Inr by blast
  have d: "dom (SharedStates s') = dom (SharedStates s)"
    using x unfolding s' by auto
  have "on_hold_wf s'" using assms(1) unfolding s' by (simp add: signal_ready_def on_hold_wf_def)
  moreover have "\<forall>b y. SharedStates s' b = Some y \<longrightarrow>
           set (DependentSharedFutures y) \<subseteq> dom (SharedStates s')"
    unfolding d using assms(1) x unfolding s' signal_ready_def
    by (auto split: if_splits)
  moreover have "\<forall>b y. SharedStates s' b = Some y \<and> Status y = ON_HOLD
             \<and> 1 \<le> NumberOfPriorSharedFuturesRemaining y \<longrightarrow> b \<in> on_hold_keys s'"
    using assms(1,3) unfolding s' signal_ready_def on_hold_keys_def
    by (auto split: if_splits)
  moreover have "front_valid s'"
    using assms(1) d unfolding s' signal_ready_def front_valid_def by simp
  ultimately show ?thesis unfolding signal_ready_def by blast
qed

lemma signal_ready_RunInvoker:
  assumes "signal_ready s" "RunInvoker v s = Inr s'"
  shows "signal_ready s'"
proof -
  let ?s0 = "s\<lparr>Trace := Trace s @ [Payload (SharedState v)]\<rparr>"
  have "signal_ready ?s0" using assms(1) by (simp add: signal_ready_cong [of ?s0 s])
  moreover have "write_Status (SharedState v) DONE ?s0 = Inr s'"
    using assms(2) by (simp add: RunInvoker_def)
  ultimately show ?thesis by (rule signal_ready_write_Status) simp
qed

lemma signal_ready_decrement:
  assumes "signal_ready s" "SharedStates s f = Some x"
    "\<not> (Status x = ON_HOLD \<and> NumberOfPriorSharedFuturesRemaining x = 1)"
  shows "signal_ready (SignalDependentSharedFutures_decrement f x s)"
proof -
  let ?s' = "SignalDependentSharedFutures_decrement f x s"
  have d: "dom (SharedStates ?s') = dom (SharedStates s)"
    using assms(2) by (auto simp: SignalDependentSharedFutures_decrement_def)
  have "on_hold_wf ?s'" using assms(1)
    by (simp add: signal_ready_def on_hold_wf_def SignalDependentSharedFutures_decrement_def)
  moreover have "\<forall>b y. SharedStates ?s' b = Some y \<longrightarrow>
           set (DependentSharedFutures y) \<subseteq> dom (SharedStates ?s')"
    unfolding d using assms(1,2) unfolding signal_ready_def
    by (auto simp: SignalDependentSharedFutures_decrement_def split: if_splits)
  moreover have "\<forall>b y. SharedStates ?s' b = Some y \<and> Status y = ON_HOLD
             \<and> 1 \<le> NumberOfPriorSharedFuturesRemaining y \<longrightarrow> b \<in> on_hold_keys ?s'"
    using assms unfolding signal_ready_def on_hold_keys_def
    by (auto simp: SignalDependentSharedFutures_decrement_def split: if_splits)
  moreover have "front_valid ?s'"
    using assms(1) d unfolding signal_ready_def front_valid_def
    by (simp add: SignalDependentSharedFutures_decrement_def)
  ultimately show ?thesis unfolding signal_ready_def by blast
qed

lemma signal_ready_decrement_take:
  assumes r: "signal_ready s" and x: "SharedStates s f = Some x"
    and c: "Status x = ON_HOLD" "NumberOfPriorSharedFuturesRemaining x = 1"
  shows "\<exists>w s2. SignalDependentSharedFutures_take f
                  (SignalDependentSharedFutures_decrement f x s) = Inr (w, s2)
           \<and> signal_ready s2 \<and> length (InvokersOnHold s2) < length (InvokersOnHold s)
           \<and> SharedState w = f \<and> dom (SharedStates s2) = dom (SharedStates s)"
proof -
  let ?sd = "SignalDependentSharedFutures_decrement f x s"
  have fk: "f \<in> on_hold_keys s" using r x c unfolding signal_ready_def by auto
  then obtain w where w: "map_of (InvokersOnHold s) f = Some w"
    unfolding on_hold_keys_def by (metis map_of_eq_None_iff not_Some_eq)
  let ?s2 = "?sd\<lparr>InvokersOnHold := AList.delete f (InvokersOnHold ?sd)\<rparr>"
  have t: "SignalDependentSharedFutures_take f ?sd = Inr (w, ?s2)"
    using w by (simp add: take_Inr SignalDependentSharedFutures_decrement_def)
  have wf: "on_hold_wf s" using r by (rule signal_ready_on_hold_wf)
  have fw: "SharedState w = f"
    using map_of_SomeD [OF w] wf unfolding on_hold_wf_def by force
  have d: "dom (SharedStates ?s2) = dom (SharedStates s)"
    using x by (auto simp: SignalDependentSharedFutures_decrement_def)
  have len: "length (InvokersOnHold ?s2) < length (InvokersOnHold s)"
  proof -
    have "(f, w) \<in> set (InvokersOnHold s)" using w by (rule map_of_SomeD)
    then have "length (filter (\<lambda>p. fst p \<noteq> f) (InvokersOnHold s)) < length (InvokersOnHold s)"
      by (intro length_filter_less [of "(f, w)"]) auto
    moreover have "AList.delete f (InvokersOnHold s) = filter (\<lambda>p. fst p \<noteq> f) (InvokersOnHold s)"
      by (auto simp: AList.delete_eq intro: filter_cong)
    ultimately show ?thesis by (simp add: SignalDependentSharedFutures_decrement_def)
  qed
  have k2: "on_hold_keys ?s2 = on_hold_keys s - {f}"
    using on_hold_keys_take [OF t] by (simp add: on_hold_keys_def SignalDependentSharedFutures_decrement_def)
  have "on_hold_wf ?sd" using wf
    by (simp add: on_hold_wf_def SignalDependentSharedFutures_decrement_def)
  then have "on_hold_wf ?s2" using take_extends [OF t] extends_on_hold_wf by blast
  moreover have "\<forall>b y. SharedStates ?s2 b = Some y \<longrightarrow>
           set (DependentSharedFutures y) \<subseteq> dom (SharedStates ?s2)"
    unfolding d using r x unfolding signal_ready_def
    by (auto simp: SignalDependentSharedFutures_decrement_def split: if_splits)
  moreover have "\<forall>b y. SharedStates ?s2 b = Some y \<and> Status y = ON_HOLD
             \<and> 1 \<le> NumberOfPriorSharedFuturesRemaining y \<longrightarrow> b \<in> on_hold_keys ?s2"
    unfolding k2 using r x c unfolding signal_ready_def
    by (auto simp: SignalDependentSharedFutures_decrement_def split: if_splits)
  moreover have "front_valid ?s2"
    using r d unfolding signal_ready_def front_valid_def
    by (simp add: SignalDependentSharedFutures_decrement_def)
  ultimately have "signal_ready ?s2" unfolding signal_ready_def by blast
  with t len fw d show ?thesis by blast
qed

lemma reinsert_states:
  "SignalDependentSharedFutures_reinsert vs i s = Inr s' \<Longrightarrow> SharedStates s' a = Some y \<Longrightarrow>
     \<exists>x. SharedStates s a = Some x
        \<and> DependentSharedFutures y = DependentSharedFutures x
        \<and> NumberOfPriorSharedFuturesRemaining y = NumberOfPriorSharedFuturesRemaining x
        \<and> (Status y = Status x \<or> Status y = ENQUEUED)"
proof (induction vs arbitrary: i s)
  case Nil
  then show ?case by simp
next
  case (Cons v vs)
  from Cons.prems(1) obtain st s1 where
    st: "SharedStates s (SharedState v) = Some st"
    and w: "write_Status (SharedState v) ENQUEUED
              (s\<lparr>SharedStates := (SharedStates s)(SharedState v \<mapsto> st\<lparr>InvokerIndex := i - 1\<rparr>)\<rparr>) = Inr s1"
    and r: "SignalDependentSharedFutures_reinsert vs (i - 1)
                   (s1\<lparr>InvokerQueue := Some v # InvokerQueue s1\<rparr>) = Inr s'"
    by (auto split: option.splits if_splits sum.splits)
  from Cons.IH [OF r Cons.prems(2)] obtain x where
    x: "SharedStates (s1\<lparr>InvokerQueue := Some v # InvokerQueue s1\<rparr>) a = Some x"
    "DependentSharedFutures y = DependentSharedFutures x"
    "NumberOfPriorSharedFuturesRemaining y = NumberOfPriorSharedFuturesRemaining x"
    "Status y = Status x \<or> Status y = ENQUEUED" by blast
  show ?case
    using x w st by (cases "a = SharedState v") (auto simp: write_Status_Inr)
qed

lemma launch_total:
  assumes r: "signal_ready s"
    and h: "\<forall>v \<in> set vs. status_of s (SharedState v) = Some ON_HOLD"
    and d: "distinct (map SharedState vs)"
  shows "\<exists>s'. SignalDependentSharedFutures_launch vs s = Inr s' \<and> signal_ready s'"
proof (cases "vs = []")
  case True
  have "signal_ready (s\<lparr>Trace := Trace s\<rparr>)"
    using r by (simp add: signal_ready_cong [of "s\<lparr>Trace := Trace s\<rparr>" s])
  with True show ?thesis by (simp add: SignalDependentSharedFutures_launch_def)
next
  case False
  define base where "base =
    (case InvokerQueue s of
       [] \<Rightarrow> of_nat (length vs)
     | front # _ \<Rightarrow> (case front of None \<Rightarrow> 0
          | Some f \<Rightarrow> (case SharedStates s (SharedState f) of None \<Rightarrow> 0
              | Some frontState \<Rightarrow> InvokerIndex frontState)))"
  obtain s1 where s1: "SignalDependentSharedFutures_reinsert vs base s = Inr s1"
    using reinsert_total [OF h d] by blast
  let ?s' = "s1\<lparr>Trace := Trace s1 @ replicate (length vs) NotifyOne\<rparr>"
  have fv: "front_valid s" using r by (simp add: signal_ready_def)
  have la: "SignalDependentSharedFutures_launch vs s = Inr ?s'"
    using False s1 fv unfolding base_def front_valid_def
    by (auto simp: SignalDependentSharedFutures_launch_def)
  note ri = reinsert_Inr [OF s1]
  have dm: "dom (SharedStates s1) = dom (SharedStates s)"
    using reinsert_extends [OF s1] by (simp add: extends_def)
  have wf: "on_hold_wf s1" using r ri by (simp add: signal_ready_def on_hold_wf_def)
  have cl: "\<forall>a y. SharedStates s1 a = Some y \<longrightarrow>
           set (DependentSharedFutures y) \<subseteq> dom (SharedStates s1)"
  proof (intro allI impI)
    fix a y assume "SharedStates s1 a = Some y"
    from reinsert_states [OF s1 this] obtain x where "SharedStates s a = Some x"
      "DependentSharedFutures y = DependentSharedFutures x" by blast
    with r show "set (DependentSharedFutures y) \<subseteq> dom (SharedStates s1)"
      unfolding dm signal_ready_def by metis
  qed
  have hp: "\<forall>a y. SharedStates s1 a = Some y \<and> Status y = ON_HOLD
             \<and> 1 \<le> NumberOfPriorSharedFuturesRemaining y \<longrightarrow> a \<in> on_hold_keys s1"
  proof (intro allI impI)
    fix a y assume y: "SharedStates s1 a = Some y \<and> Status y = ON_HOLD
             \<and> 1 \<le> NumberOfPriorSharedFuturesRemaining y"
    with reinsert_states [OF s1, of a y] obtain x where "SharedStates s a = Some x"
      "NumberOfPriorSharedFuturesRemaining y = NumberOfPriorSharedFuturesRemaining x"
      "Status x = ON_HOLD" by auto
    with y r have "a \<in> on_hold_keys s" unfolding signal_ready_def by metis
    then show "a \<in> on_hold_keys s1" using ri by (simp add: on_hold_keys_def)
  qed
  have "front_valid s1"
  proof -
    from False obtain v vs' where vs: "vs = vs' @ [v]" by (metis rev_exhaust)
    then have "status_of s (SharedState v) = Some ON_HOLD" using h by simp
    then have "SharedState v \<in> dom (SharedStates s1)"
      unfolding dm by (auto simp: status_of_def)
    moreover have "InvokerQueue s1 = Some v # map Some (rev vs') @ InvokerQueue s"
      using ri vs by simp
    ultimately show ?thesis unfolding front_valid_def by blast
  qed
  with wf cl hp have "signal_ready s1" unfolding signal_ready_def by blast
  then have "signal_ready ?s'" by (simp add: signal_ready_cong [of ?s' s1])
  with la show ?thesis by blast
qed

lemma total_iterate_step:
  assumes inv: "\<forall>v s. signal_ready s \<longrightarrow> SharedState v \<in> dom (SharedStates s)
                  \<longrightarrow> length (InvokersOnHold s) < k
                  \<longrightarrow> (\<exists>s'. Invoke k v s = Inr s' \<and> signal_ready s')"
    and r: "signal_ready s" and fs: "set fs \<subseteq> dom (SharedStates s)"
    and len: "length (InvokersOnHold s) \<le> k"
  shows "\<exists>acc' s'. SignalDependentSharedFutures_iterate k fs acc s = Inr (acc', s')
           \<and> signal_ready s'"
  using r fs len
proof (induction fs arbitrary: acc s)
  case Nil
  then show ?case by simp
next
  case (Cons f rest)
  from Cons.prems(2) obtain x where x: "SharedStates s f = Some x" by auto
  let ?sd = "SignalDependentSharedFutures_decrement f x s"
  show ?case
  proof (cases "Status x = ON_HOLD \<and> NumberOfPriorSharedFuturesRemaining x = 1")
    case False
    have "signal_ready ?sd" using Cons.prems(1) x False by (rule signal_ready_decrement)
    moreover have "set rest \<subseteq> dom (SharedStates ?sd)"
      using Cons.prems(2) x by (auto simp: SignalDependentSharedFutures_decrement_def)
    moreover have "length (InvokersOnHold ?sd) \<le> k"
      using Cons.prems(3) by (simp add: SignalDependentSharedFutures_decrement_def)
    ultimately obtain acc' s' where
      "SignalDependentSharedFutures_iterate k rest acc ?sd = Inr (acc', s')" "signal_ready s'"
      using Cons.IH by blast
    with x False show ?thesis by (auto simp: iterate_Cons_Inr)
  next
    case True
    with signal_ready_decrement_take [OF Cons.prems(1) x] obtain w s2 where
      t: "SignalDependentSharedFutures_take f ?sd = Inr (w, s2)"
      and r2: "signal_ready s2" and l2: "length (InvokersOnHold s2) < length (InvokersOnHold s)"
      and fw: "SharedState w = f" and d2: "dom (SharedStates s2) = dom (SharedStates s)"
      by blast
    show ?thesis
    proof (cases "IsHighPriority w")
      case hp: True
      have "SharedState w \<in> dom (SharedStates s2)" using fw d2 x by auto
      moreover have "length (InvokersOnHold s2) < k" using l2 Cons.prems(3) by simp
      ultimately obtain s3 where i3: "Invoke k w s2 = Inr s3" and r3: "signal_ready s3"
        using inv r2 by blast
      have e3: "extends s2 s3" using i3 by (rule Invoke_extends)
      have "set rest \<subseteq> dom (SharedStates s3)"
        using e3 d2 Cons.prems(2) by (simp add: extends_def)
      moreover have "length (InvokersOnHold s3) \<le> k"
      proof -
        from e3 obtain P where "InvokersOnHold s3 = filter P (InvokersOnHold s2)"
          unfolding extends_def by blast
        then have "length (InvokersOnHold s3) \<le> length (InvokersOnHold s2)" by simp
        with l2 Cons.prems(3) show ?thesis by simp
      qed
      ultimately obtain acc' s' where
        "SignalDependentSharedFutures_iterate k rest acc s3 = Inr (acc', s')" "signal_ready s'"
        using Cons.IH r3 by blast
      with x True t hp i3 show ?thesis by (auto simp: iterate_Cons_Inr)
    next
      case lp: False
      have "set rest \<subseteq> dom (SharedStates s2)" using d2 Cons.prems(2) by simp
      moreover have "length (InvokersOnHold s2) \<le> k" using l2 Cons.prems(3) by simp
      ultimately obtain acc' s' where
        "SignalDependentSharedFutures_iterate k rest (acc @ [w]) s2 = Inr (acc', s')"
        "signal_ready s'"
        using Cons.IH r2 by blast
      with x True t lp show ?thesis by (auto simp: iterate_Cons_Inr)
    qed
  qed
qed

lemma total_Signal_step:
  assumes inv: "\<forall>v s. signal_ready s \<longrightarrow> SharedState v \<in> dom (SharedStates s)
                  \<longrightarrow> length (InvokersOnHold s) < k
                  \<longrightarrow> (\<exists>s'. Invoke k v s = Inr s' \<and> signal_ready s')"
    and r: "signal_ready s" and v: "SharedState v \<in> dom (SharedStates s)"
    and len: "length (InvokersOnHold s) \<le> k"
  shows "\<exists>s'. SignalDependentSharedFutures k v s = Inr s' \<and> signal_ready s'"
proof -
  from v obtain x where x: "SharedStates s (SharedState v) = Some x" by auto
  then have "set (DependentSharedFutures x) \<subseteq> dom (SharedStates s)"
    using r unfolding signal_ready_def by metis
  from total_iterate_step [OF inv r this len] obtain acc s1 where
    it: "SignalDependentSharedFutures_iterate k (DependentSharedFutures x) [] s = Inr (acc, s1)"
    and r1: "signal_ready s1" by blast
  from frame_iterate [OF signal_ready_on_hold_wf [OF r] it] have "collected s s1 [] acc" by blast
  then have "\<forall>v \<in> set acc. status_of s1 (SharedState v) = Some ON_HOLD"
    "distinct (map SharedState acc)"
    unfolding collected_def by auto
  from launch_total [OF r1 this] obtain s' where
    "SignalDependentSharedFutures_launch acc s1 = Inr s'" "signal_ready s'" by blast
  with x it show ?thesis unfolding Signal_Inr by blast
qed

lemma total_Invoke_all:
  "\<forall>v s. signal_ready s \<longrightarrow> SharedState v \<in> dom (SharedStates s)
      \<longrightarrow> length (InvokersOnHold s) < k
      \<longrightarrow> (\<exists>s'. Invoke k v s = Inr s' \<and> signal_ready s')"
proof (induction k)
  case 0
  show ?case by simp
next
  case (Suc k)
  show ?case
  proof (intro allI impI)
    fix v :: InvokerBase and s
    assume r: "signal_ready s" and v: "SharedState v \<in> dom (SharedStates s)"
      and len: "length (InvokersOnHold s) < Suc k"
    from v obtain x where x: "SharedStates s (SharedState v) = Some x" by auto
    then obtain s1 where w: "write_Status (SharedState v) RUNNING s = Inr s1"
      by (auto simp: write_Status_Inr)
    have r1: "signal_ready s1" using r w by (rule signal_ready_write_Status) simp
    have "SharedStates s1 (SharedState v) \<noteq> None" using w by (auto simp: write_Status_Inr)
    then obtain s2 where ru: "RunInvoker v s1 = Inr s2"
      by (auto simp: RunInvoker_Inr)
    have r2: "signal_ready s2" using r1 ru by (rule signal_ready_RunInvoker)
    have same: "InvokersOnHold s2 = InvokersOnHold s" "dom (SharedStates s2) = dom (SharedStates s)"
      using w ru x by (auto simp: write_Status_Inr RunInvoker_Inr)
    have "SharedState v \<in> dom (SharedStates s2)" using same v by simp
    moreover have "length (InvokersOnHold s2) \<le> k" using same len by simp
    ultimately obtain s' where "SignalDependentSharedFutures k v s2 = Inr s'" "signal_ready s'"
      using total_Signal_step [OF Suc r2] by blast
    with w ru show "\<exists>s'. Invoke (Suc k) v s = Inr s' \<and> signal_ready s'"
      unfolding Invoke_Suc_Inr by blast
  qed
qed

lemma total_Invoke:
  "signal_ready s \<Longrightarrow> SharedState v \<in> dom (SharedStates s)
   \<Longrightarrow> length (InvokersOnHold s) < k \<Longrightarrow> \<exists>s'. Invoke k v s = Inr s' \<and> signal_ready s'"
  using total_Invoke_all by blast

lemma total_Signal:
  "signal_ready s \<Longrightarrow> SharedState v \<in> dom (SharedStates s)
   \<Longrightarrow> length (InvokersOnHold s) \<le> k
   \<Longrightarrow> \<exists>s'. SignalDependentSharedFutures k v s = Inr s' \<and> signal_ready s'"
  using total_Signal_step [OF total_Invoke_all] by blast

lemma total_iterate:
  "signal_ready s \<Longrightarrow> set fs \<subseteq> dom (SharedStates s) \<Longrightarrow> length (InvokersOnHold s) \<le> k
   \<Longrightarrow> \<exists>acc' s'. SignalDependentSharedFutures_iterate k fs acc s = Inr (acc', s')
          \<and> signal_ready s'"
  using total_iterate_step [OF total_Invoke_all] by blast

section \<open>Other operations leave a collected invoker alone\<close>

lemma join_all_SharedStates:
  "join_all this_thread ts s = Inr s' \<Longrightarrow> SharedStates s' = SharedStates s"
  by (induction ts arbitrary: s) (auto split: if_splits)

lemma spawn_threads_SharedStates: "SharedStates (spawn_threads m s) = SharedStates s"
  by (induction m arbitrary: s) auto

lemma SetNumberOfThreads_SharedStates:
  "SetNumberOfThreads this_thread n s = Inr s' \<Longrightarrow> SharedStates s' = SharedStates s"
  by (auto simp: SetNumberOfThreads_def swap_with_thread0_def Sync_def Let_def
        spawn_threads_SharedStates
        split: if_splits sum.splits option.splits list.splits dest!: join_all_SharedStates)

lemma Destructor_SharedStates:
  "Destructor this_thread s = Inr s' \<Longrightarrow> SharedStates s' = SharedStates s"
  by (auto simp: Destructor_def Sync_def split: if_splits dest!: join_all_SharedStates)

lemma Invoke_status_frame:
  assumes "on_hold_wf s" "a \<notin> on_hold_keys s" "SharedState v \<noteq> a" "Invoke k v s = Inr s'"
  shows "status_of s' a = status_of s a"
  using frame_Invoke [OF assms(1,4)] assms(2,3) by (simp add: untouched_def)

lemma Signal_status_frame:
  assumes "on_hold_wf s" "a \<notin> on_hold_keys s" "SignalDependentSharedFutures k v s = Inr s'"
  shows "status_of s' a = status_of s a"
  using frame_Signal [OF assms(1,3)] assms(2) by (simp add: untouched_def)

lemma Pop_Returns_True:
  "Pop k w s = Inr (Returns True, s') \<longleftrightarrow>
     (\<not> OnHold w s \<and> Continue w s
      \<and> (\<exists>front rest. InvokerQueue s = Some front # rest
            \<and> Invoke k front (PopFrontNullptr (s\<lparr>InvokerQueue := rest\<rparr>)) = Inr s'))"
  by (auto simp: Pop_def Let_def Continue_def split: list.splits option.splits sum.splits)

lemma Pop_other:
  "Pop k w s = Inr (r, s') \<Longrightarrow> r \<noteq> Returns True \<Longrightarrow> s' = s"
  by (auto simp: Pop_def Let_def split: if_splits list.splits option.splits sum.splits)

lemma Pop_status_frame:
  assumes wf: "on_hold_wf s" and a: "a \<notin> on_hold_keys s"
    and nq: "\<forall>v. Some v \<in> set (InvokerQueue s) \<longrightarrow> SharedState v \<noteq> a"
    and p: "Pop k w s = Inr (r, s')"
  shows "status_of s' a = status_of s a"
proof (cases "r = Returns True")
  case False
  with Pop_other [OF p] show ?thesis by simp
next
  case True
  with p have "Pop k w s = Inr (Returns True, s')" by simp
  then obtain front rest where q: "InvokerQueue s = Some front # rest"
    and i: "Invoke k front (PopFrontNullptr (s\<lparr>InvokerQueue := rest\<rparr>)) = Inr s'"
    unfolding Pop_Returns_True by blast
  let ?s1 = "PopFrontNullptr (s\<lparr>InvokerQueue := rest\<rparr>)"
  have "on_hold_wf ?s1" "a \<notin> on_hold_keys ?s1" "status_of ?s1 = status_of s"
    using wf a by (simp_all add: on_hold_wf_def on_hold_keys_def PopFrontNullptr_def status_of_def fun_eq_iff)
  moreover have "SharedState front \<noteq> a" using nq q by simp
  ultimately show ?thesis using Invoke_status_frame [OF _ _ _ i] by simp
qed

lemma TryInvoke_status_frame:
  assumes wf: "on_hold_wf s" and a: "a \<notin> on_hold_keys s"
    and nq: "\<forall>v. Some v \<in> set (InvokerQueue s) \<longrightarrow> SharedState v \<noteq> a"
    and t: "TryInvoke k state s = Inr (b, s')"
  shows "status_of s' a = status_of s a"
proof (cases b)
  case False
  with t have "s' = s \<or> (\<exists>s1. TryInvoke_take state s = Inr (None, s1) \<and> s' = s1)"
    by (auto simp: TryInvoke_def split: sum.splits option.splits)
  moreover have "status_of s1 = status_of s" if "TryInvoke_take state s = Inr (None, s1)" for s1
    using that
    by (auto simp: TryInvoke_take_def PopFrontNullptr_def Let_def status_of_def fun_eq_iff
          split: option.splits if_splits list.splits)
  ultimately show ?thesis by auto
next
  case True
  with t have "TryInvoke k state s = Inr (True, s')" by simp
  then obtain taken s1 where tk: "TryInvoke_take state s = Inr (Some taken, s1)"
    and i: "Invoke k taken s1 = Inr s'"
    unfolding TryInvoke_True by blast
  from TryInvoke_take_Some [OF tk] obtain j q' where
    j: "j < length (InvokerQueue s)" "InvokerQueue s ! j = Some taken"
    and s1: "s1 = s\<lparr>InvokerQueue := q'\<rparr>" by blast
  have "on_hold_wf s1" "a \<notin> on_hold_keys s1" "status_of s1 = status_of s"
    using wf a unfolding s1 by (simp_all add: on_hold_wf_def on_hold_keys_def status_of_def fun_eq_iff)
  moreover have "SharedState taken \<noteq> a" using nq j by (metis nth_mem)
  ultimately show ?thesis using Invoke_status_frame [OF _ _ _ i] by simp
qed

text \<open>
  C9: with a well-formed on-hold store, SignalDependentSharedFutures never fails the
  assertion of its reinsertion loop. Once the iteration over the dependents is over,
  every collected invoker has status ON_HOLD and no entry in the on-hold store, and no two
  of them share a state, so the loop runs through them. Whatever the state \<open>t\<close> in which
  another operation runs, it does not change the status of a task \<open>a\<close> that has no entry
  in the on-hold store, provided the operation is not the invocation of \<open>a\<close>'s own
  invoker (for Pop and TryInvoke: no invoker of \<open>a\<close> is in the deque). With valid
  pointers and a bound that covers the on-hold store the whole call returns normally.
\<close>

theorem reinsertion_assertion_never_fires:
  assumes wf: "on_hold_wf s"
  shows "SignalDependentSharedFutures k invoker s \<noteq> Inl AssertionFailed
     \<and> (\<forall>invokerState acc s1.
          SharedStates s (SharedState invoker) = Some invokerState
          \<and> SignalDependentSharedFutures_iterate k (DependentSharedFutures invokerState) [] s
              = Inr (acc, s1) \<longrightarrow>
            (\<forall>w \<in> set acc. status_of s1 (SharedState w) = Some ON_HOLD
                \<and> SharedState w \<notin> on_hold_keys s1)
            \<and> distinct (map SharedState acc)
            \<and> (\<forall>i. \<exists>s2. SignalDependentSharedFutures_reinsert acc i s1 = Inr s2))
     \<and> (\<forall>t a. on_hold_wf t \<and> a \<notin> on_hold_keys t \<longrightarrow>
          (\<forall>k' v t'. SharedState v \<noteq> a \<and> Invoke k' v t = Inr t'
              \<longrightarrow> status_of t' a = status_of t a)
          \<and> (\<forall>k' v t'. SignalDependentSharedFutures k' v t = Inr t'
              \<longrightarrow> status_of t' a = status_of t a)
          \<and> (\<forall>this_thread n t'. SetNumberOfThreads this_thread n t = Inr t'
              \<longrightarrow> status_of t' a = status_of t a)
          \<and> (\<forall>this_thread t'. Destructor this_thread t = Inr t'
              \<longrightarrow> status_of t' a = status_of t a)
          \<and> ((\<forall>v. Some v \<in> set (InvokerQueue t) \<longrightarrow> SharedState v \<noteq> a) \<longrightarrow>
               (\<forall>k' w r t'. Pop k' w t = Inr (r, t') \<longrightarrow> status_of t' a = status_of t a)
               \<and> (\<forall>k' state b t'. TryInvoke k' state t = Inr (b, t')
                     \<longrightarrow> status_of t' a = status_of t a)))
     \<and> (signal_ready s \<and> SharedState invoker \<in> dom (SharedStates s)
          \<and> length (InvokersOnHold s) \<le> k
          \<longrightarrow> (\<exists>s'. SignalDependentSharedFutures k invoker s = Inr s'))"
proof (intro conjI allI impI ballI)
  show "SignalDependentSharedFutures k invoker s \<noteq> Inl AssertionFailed"
    using wf by (rule no_assert_Signal)
next
  fix invokerState acc s1 w
  assume a: "SharedStates s (SharedState invoker) = Some invokerState
          \<and> SignalDependentSharedFutures_iterate k (DependentSharedFutures invokerState) [] s
              = Inr (acc, s1)"
    and w: "w \<in> set acc"
  from a frame_iterate [OF wf] have "collected s s1 [] acc" by blast
  with w show "status_of s1 (SharedState w) = Some ON_HOLD" "SharedState w \<notin> on_hold_keys s1"
    unfolding collected_def by auto
next
  fix invokerState acc s1
  assume a: "SharedStates s (SharedState invoker) = Some invokerState
          \<and> SignalDependentSharedFutures_iterate k (DependentSharedFutures invokerState) [] s
              = Inr (acc, s1)"
  from a frame_iterate [OF wf] have c: "collected s s1 [] acc" by blast
  then show "distinct (map SharedState acc)" unfolding collected_def by auto
  fix i
  from c have "\<forall>v \<in> set acc. status_of s1 (SharedState v) = Some ON_HOLD"
    "distinct (map SharedState acc)" unfolding collected_def by auto
  then show "\<exists>s2. SignalDependentSharedFutures_reinsert acc i s1 = Inr s2"
    by (rule reinsert_total)
next
  fix t a k' and v :: InvokerBase and t'
  assume "on_hold_wf t \<and> a \<notin> on_hold_keys t" "SharedState v \<noteq> a \<and> Invoke k' v t = Inr t'"
  then show "status_of t' a = status_of t a" using Invoke_status_frame by blast
next
  fix t a k' v t'
  assume "on_hold_wf t \<and> a \<notin> on_hold_keys t" "SignalDependentSharedFutures k' v t = Inr t'"
  then show "status_of t' a = status_of t a" using Signal_status_frame by blast
next
  fix t a this_thread n t'
  assume "SetNumberOfThreads this_thread n t = Inr t'"
  then show "status_of t' a = status_of t a"
    using SetNumberOfThreads_SharedStates by (simp add: status_of_def)
next
  fix t a this_thread t'
  assume "Destructor this_thread t = Inr t'"
  then show "status_of t' a = status_of t a"
    using Destructor_SharedStates by (simp add: status_of_def)
next
  fix t a k' w r t'
  assume "on_hold_wf t \<and> a \<notin> on_hold_keys t"
    "\<forall>v. Some v \<in> set (InvokerQueue t) \<longrightarrow> SharedState v \<noteq> a" "Pop k' w t = Inr (r, t')"
  then show "status_of t' a = status_of t a" using Pop_status_frame by blast
next
  fix t a k' state b t'
  assume "on_hold_wf t \<and> a \<notin> on_hold_keys t"
    "\<forall>v. Some v \<in> set (InvokerQueue t) \<longrightarrow> SharedState v \<noteq> a"
    "TryInvoke k' state t = Inr (b, t')"
  then show "status_of t' a = status_of t a" using TryInvoke_status_frame by blast
next
  assume "signal_ready s \<and> SharedState invoker \<in> dom (SharedStates s)
          \<and> length (InvokersOnHold s) \<le> k"
  then show "\<exists>s'. SignalDependentSharedFutures k invoker s = Inr s'"
    using total_Signal by blast
qed

lemma signalling_example_on_hold_wf: "on_hold_wf signalling_example"
  by (simp add: on_hold_wf_def signalling_example_def invoker_of_def)

lemma signalling_example_ready: "signal_ready signalling_example"
  unfolding signal_ready_def
proof (intro conjI)
  show "on_hold_wf signalling_example" by (rule signalling_example_on_hold_wf)
  show "\<forall>a x. SharedStates signalling_example a = Some x \<longrightarrow>
           set (DependentSharedFutures x) \<subseteq> dom (SharedStates signalling_example)"
    by (auto simp: signalling_example_def task_def split: if_splits)
  show "\<forall>a x. SharedStates signalling_example a = Some x \<and> Status x = ON_HOLD
             \<and> 1 \<le> NumberOfPriorSharedFuturesRemaining x \<longrightarrow> a \<in> on_hold_keys signalling_example"
    by (auto simp: signalling_example_def task_def on_hold_keys_def split: if_splits)
  show "front_valid signalling_example"
    by (simp add: front_valid_def signalling_example_def invoker_of_def)
qed

theorem reinsertion_assertion_never_fires_witness:
  "on_hold_wf signalling_example
   \<and> SignalDependentSharedFutures 2 (invoker_of 1 False) signalling_example \<noteq> Inl AssertionFailed
   \<and> (\<exists>s1. SignalDependentSharedFutures_iterate 2 [2, 3, 4, 8] [] signalling_example
              = Inr ([invoker_of 2 False, invoker_of 8 False], s1)
          \<and> status_of s1 2 = Some ON_HOLD \<and> status_of s1 8 = Some ON_HOLD
          \<and> 2 \<notin> on_hold_keys s1 \<and> 8 \<notin> on_hold_keys s1
          \<and> (\<exists>s2. SignalDependentSharedFutures_reinsert
                      [invoker_of 2 False, invoker_of 8 False] 9 s1 = Inr s2))
   \<and> (\<exists>s'. SignalDependentSharedFutures 5 (invoker_of 1 False) signalling_example = Inr s')"
proof -
  let ?vs = "[invoker_of 2 False, invoker_of 8 False]"
  note th = reinsertion_assertion_never_fires
              [OF signalling_example_on_hold_wf, of 2 "invoker_of 1 False"]
  have st: "SharedStates signalling_example (SharedState (invoker_of 1 False))
              = Some (task DONE 0 [2, 3, 4, 8] 0)"
    by (simp add: signalling_example_def invoker_of_def)
  obtain s1 where it: "SignalDependentSharedFutures_iterate 2
        (DependentSharedFutures (task DONE 0 [2, 3, 4, 8] 0)) [] signalling_example = Inr (?vs, s1)"
    using signalling_example_iterate by (auto simp: task_def split: sum.splits)
  note p2 = th [THEN conjunct2, THEN conjunct1, rule_format, OF conjI [OF st it]]
  from p2 have c: "\<forall>w \<in> set ?vs. status_of s1 (SharedState w) = Some ON_HOLD
                \<and> SharedState w \<notin> on_hold_keys s1"
    and r: "\<exists>s2. SignalDependentSharedFutures_reinsert ?vs 9 s1 = Inr s2"
    by blast+
  have e: "\<exists>s'. SignalDependentSharedFutures 5 (invoker_of 1 False) signalling_example = Inr s'"
    using reinsertion_assertion_never_fires
              [OF signalling_example_on_hold_wf, of 5 "invoker_of 1 False",
                THEN conjunct2, THEN conjunct2, THEN conjunct2]
      signalling_example_ready
    by (simp add: signalling_example_def invoker_of_def)
  have na: "SignalDependentSharedFutures 2 (invoker_of 1 False) signalling_example
              \<noteq> Inl AssertionFailed"
    using th by (rule conjunct1)
  have "status_of s1 2 = Some ON_HOLD \<and> status_of s1 8 = Some ON_HOLD
          \<and> 2 \<notin> on_hold_keys s1 \<and> 8 \<notin> on_hold_keys s1"
    using c by (simp add: invoker_of_def)
  with it r have "\<exists>s1. SignalDependentSharedFutures_iterate 2 [2, 3, 4, 8] [] signalling_example
              = Inr (?vs, s1)
          \<and> status_of s1 2 = Some ON_HOLD \<and> status_of s1 8 = Some ON_HOLD
          \<and> 2 \<notin> on_hold_keys s1 \<and> 8 \<notin> on_hold_keys s1
          \<and> (\<exists>s2. SignalDependentSharedFutures_reinsert ?vs 9 s1 = Inr s2)"
    by (intro exI [of _ s1]) (simp add: task_def)
  with na e signalling_example_on_hold_wf show ?thesis by blast
qed

section \<open>The high-priority path\<close>

lemma Invoke_status_DONE:
  assumes wf: "on_hold_wf s" and nk: "SharedState v \<notin> on_hold_keys s"
    and i: "Invoke k v s = Inr s'"
  shows "status_of s' (SharedState v) = Some DONE"
proof (cases k)
  case 0
  with i show ?thesis by simp
next
  case (Suc n)
  with i have "Invoke (Suc n) v s = Inr s'" by simp
  then obtain s1 s2 where w: "write_Status (SharedState v) RUNNING s = Inr s1"
    and r: "RunInvoker v s1 = Inr s2" and sg: "SignalDependentSharedFutures n v s2 = Inr s'"
    unfolding Invoke_Suc_Inr by blast
  have same: "InvokersOnHold s2 = InvokersOnHold s"
    using w r by (auto simp: write_Status_Inr RunInvoker_Inr)
  then have "on_hold_wf s2" "SharedState v \<notin> on_hold_keys s2"
    using wf nk by (auto simp: on_hold_wf_def on_hold_keys_def)
  from Signal_status_frame [OF this sg]
  show ?thesis using status_of_RunInvoker [OF r] by simp
qed

text \<open>
  C4: let the signalling loop reach a dependent \<open>future\<close> that is ON_HOLD with one
  dependency outstanding and whose invoker in the on-hold store is marked high priority.
  Then (with valid pointers and a bound that covers the on-hold store) the loop returns,
  having erased the invoker from the on-hold store and invoked it at once: the next
  events of the trace are the task's status RUNNING, its payload and its status DONE. The
  invoker is not collected for reinsertion, and no invoker of the task is pushed to the
  deque, which only grows during the call.
\<close>

theorem high_priority_dependent_runs_inline:
  assumes r: "signal_ready s"
    and f: "SharedStates s future = Some futureState" "Status futureState = ON_HOLD"
      "NumberOfPriorSharedFuturesRemaining futureState = 1"
    and w: "map_of (InvokersOnHold s) future = Some waitingInvoker"
      "IsHighPriority waitingInvoker"
    and rest: "set rest \<subseteq> dom (SharedStates s)"
    and fuel: "length (InvokersOnHold s) \<le> k"
  shows "\<exists>acc' s' s2 s3.
        SignalDependentSharedFutures_iterate k (future # rest) acc s = Inr (acc', s')
      \<and> SignalDependentSharedFutures_take future
           (SignalDependentSharedFutures_decrement future futureState s)
           = Inr (waitingInvoker, s2)
      \<and> Invoke k waitingInvoker s2 = Inr s3
      \<and> SignalDependentSharedFutures_iterate k rest acc s3 = Inr (acc', s')
      \<and> future \<notin> on_hold_keys s2 \<and> future \<notin> on_hold_keys s'
      \<and> (\<exists>evs. Trace s' = Trace s @ StatusWrite future RUNNING # Payload future
                    # StatusWrite future DONE # evs)
      \<and> status_of s' future = Some DONE
      \<and> (\<exists>new. InvokerQueue s' = map Some new @ InvokerQueue s
             \<and> (\<forall>v \<in> set new. SharedState v \<noteq> future))
      \<and> (\<exists>coll. acc' = acc @ coll \<and> (\<forall>v \<in> set coll. SharedState v \<noteq> future))"
proof -
  let ?sd = "SignalDependentSharedFutures_decrement future futureState s"
  from signal_ready_decrement_take [OF r f] obtain w' s2 where
    t': "SignalDependentSharedFutures_take future ?sd = Inr (w', s2)"
    and r2: "signal_ready s2" and l2: "length (InvokersOnHold s2) < length (InvokersOnHold s)"
    and d2: "dom (SharedStates s2) = dom (SharedStates s)"
    by blast
  have "w' = waitingInvoker"
    using t' w(1) by (simp add: take_Inr SignalDependentSharedFutures_decrement_def)
  with t' have t: "SignalDependentSharedFutures_take future ?sd = Inr (waitingInvoker, s2)"
    by simp
  have wf: "on_hold_wf s" using r by (rule signal_ready_on_hold_wf)
  have wf2: "on_hold_wf s2" using r2 by (rule signal_ready_on_hold_wf)
  have fw: "SharedState waitingInvoker = future"
    using map_of_SomeD [OF w(1)] wf unfolding on_hold_wf_def by force
  have k2: "on_hold_keys s2 = on_hold_keys s - {future}"
    using on_hold_keys_take [OF t]
    by (simp add: on_hold_keys_def SignalDependentSharedFutures_decrement_def)
  have tr2: "Trace s2 = Trace s" "InvokerQueue s2 = InvokerQueue s"
    using t by (auto simp: take_Inr SignalDependentSharedFutures_decrement_def)
  have "SharedState waitingInvoker \<in> dom (SharedStates s2)" using fw d2 f(1) by auto
  moreover have "length (InvokersOnHold s2) < k" using l2 fuel by simp
  ultimately obtain s3 where i3: "Invoke k waitingInvoker s2 = Inr s3" and r3: "signal_ready s3"
    using total_Invoke [OF r2] by blast
  have e3: "extends s2 s3" using i3 by (rule Invoke_extends)
  have wf3: "on_hold_wf s3" using r3 by (rule signal_ready_on_hold_wf)
  have "set rest \<subseteq> dom (SharedStates s3)" using e3 d2 rest by (simp add: extends_def)
  moreover have "length (InvokersOnHold s3) \<le> k"
  proof -
    from e3 obtain P where "InvokersOnHold s3 = filter P (InvokersOnHold s2)"
      unfolding extends_def by blast
    then have "length (InvokersOnHold s3) \<le> length (InvokersOnHold s2)" by simp
    with l2 fuel show ?thesis by simp
  qed
  ultimately obtain acc' s' where
    it: "SignalDependentSharedFutures_iterate k rest acc s3 = Inr (acc', s')"
    using total_iterate [OF r3] by blast
  have e4: "extends s3 s'" using it by (rule iterate_extends)
  have all: "SignalDependentSharedFutures_iterate k (future # rest) acc s = Inr (acc', s')"
    using f t w(2) i3 it by (auto simp: iterate_Cons_Inr)
  have k3: "future \<notin> on_hold_keys s2" "future \<notin> on_hold_keys s3" "future \<notin> on_hold_keys s'"
    using k2 extends_on_hold_keys [OF e3] extends_on_hold_keys [OF e4] by auto
  obtain evs1 where "Trace s3 = Trace s2 @ StatusWrite future RUNNING # Payload future
                    # StatusWrite future DONE # evs1"
    using Invoke_trace [OF i3] fw by auto
  moreover obtain evs2 where "Trace s' = Trace s3 @ evs2"
    using e4 unfolding extends_def by blast
  ultimately have tr: "\<exists>evs. Trace s' = Trace s @ StatusWrite future RUNNING # Payload future
                    # StatusWrite future DONE # evs"
    using tr2 by simp
  have "status_of s3 future = Some DONE"
    using Invoke_status_DONE [OF wf2 _ i3] fw k3(1) by simp
  moreover from frame_iterate [OF wf3 it] have u4: "untouched (on_hold_keys s3 - on_hold_keys s') s3 s'"
    and p4: "pushed s3 s'" and c4: "collected s3 s' acc acc'" by blast+
  ultimately have dn: "status_of s' future = Some DONE"
    using k3(2) by (simp add: untouched_def)
  from frame_Invoke [OF wf2 i3] have p3: "pushed s2 s3" by blast
  have "pushed s2 s'" using p3 p4 e3 e4 u4 wf3 by (rule pushed_trans)
  then obtain new where new: "InvokerQueue s' = map Some new @ InvokerQueue s2"
    "set new \<subseteq> snd ` set (InvokersOnHold s2)"
    unfolding pushed_def by blast
  have "\<forall>v \<in> set new. SharedState v \<noteq> future"
    using new(2) on_hold_wf_value_key [OF wf2] k3(1) by blast
  with new(1) tr2 have q: "\<exists>new. InvokerQueue s' = map Some new @ InvokerQueue s
             \<and> (\<forall>v \<in> set new. SharedState v \<noteq> future)" by auto
  from c4 obtain coll where coll: "acc' = acc @ coll" "set coll \<subseteq> snd ` set (InvokersOnHold s3)"
    unfolding collected_def by blast
  have "\<forall>v \<in> set coll. SharedState v \<noteq> future"
    using coll(2) on_hold_wf_value_key [OF wf3] k3(2) by blast
  with coll(1) have c: "\<exists>coll. acc' = acc @ coll \<and> (\<forall>v \<in> set coll. SharedState v \<noteq> future)"
    by blast
  show ?thesis
    using all t i3 it k3(1,3) tr dn q c
    by (intro exI [of _ acc'] exI [of _ s'] exI [of _ s2] exI [of _ s3]) blast
qed

lemma signalling_example_high_priority:
  "case SignalDependentSharedFutures_iterate 5 [3, 4, 8] [] signalling_example of
     Inl _ \<Rightarrow> False
   | Inr (vs, s') \<Rightarrow>
       vs = [invoker_of 8 False]
       \<and> InvokerQueue s'
           = [Some (invoker_of 5 False), Some (invoker_of 6 False), Some (invoker_of 7 False)]
       \<and> map fst (InvokersOnHold s') = [2, 4]
       \<and> Trace s' = [StatusWrite 3 RUNNING, Payload 3, StatusWrite 3 DONE,
                      StatusWrite 5 ENQUEUED, NotifyOne]"
  by code_simp

theorem high_priority_dependent_runs_inline_witness:
  "\<exists>s'. SignalDependentSharedFutures_iterate 5 [3, 4, 8] [] signalling_example
           = Inr ([invoker_of 8 False], s')
      \<and> 3 \<notin> on_hold_keys s' \<and> status_of s' 3 = Some DONE
      \<and> Trace s' = [StatusWrite 3 RUNNING, Payload 3, StatusWrite 3 DONE,
                     StatusWrite 5 ENQUEUED, NotifyOne]
      \<and> InvokerQueue s'
          = [Some (invoker_of 5 False), Some (invoker_of 6 False), Some (invoker_of 7 False)]"
proof -
  have f: "SharedStates signalling_example 3 = Some (task ON_HOLD 1 [5] 0)"
    "Status (task ON_HOLD 1 [5] 0) = ON_HOLD"
    "NumberOfPriorSharedFuturesRemaining (task ON_HOLD 1 [5] 0) = 1"
    by (simp_all add: signalling_example_def task_def)
  have w: "map_of (InvokersOnHold signalling_example) 3 = Some (invoker_of 3 True)"
    "IsHighPriority (invoker_of 3 True)"
    by (simp_all add: signalling_example_def invoker_of_def)
  have rest: "set [4, 8] \<subseteq> dom (SharedStates signalling_example)"
    by (simp add: signalling_example_def)
  have fuel: "length (InvokersOnHold signalling_example) \<le> 5"
    by (simp add: signalling_example_def)
  from high_priority_dependent_runs_inline [OF signalling_example_ready f w rest fuel, of "[]"]
  obtain acc' s' where it: "SignalDependentSharedFutures_iterate 5 [3, 4, 8] [] signalling_example
           = Inr (acc', s')"
    and p: "3 \<notin> on_hold_keys s'" "status_of s' 3 = Some DONE"
    by blast
  with signalling_example_high_priority show ?thesis by auto
qed

section \<open>Demoted workers\<close>

lemma spawn_threads_frame:
  "ThreadIdToIndex (spawn_threads m s) t = (if t < NextThreadId s then ThreadIdToIndex s t
      else ThreadIdToIndex (spawn_threads m s) t)
   \<and> NextThreadId (spawn_threads m s) = NextThreadId s + m
   \<and> length (Threads (spawn_threads m s)) = length (Threads s) + m
   \<and> (\<exists>evs. Trace (spawn_threads m s) = Trace s @ evs
         \<and> (\<forall>e \<in> set evs. \<exists>t' c. e = Spawn t' c \<and> NextThreadId s \<le> t'))
   \<and> InvokerQueue (spawn_threads m s) = InvokerQueue s
   \<and> SharedStates (spawn_threads m s) = SharedStates s
   \<and> NumberOfThreads (spawn_threads m s) = NumberOfThreads s"
proof (induction m arbitrary: s)
  case 0
  show ?case by simp
next
  case (Suc m)
  let ?s1 = "s\<lparr>Threads := Threads s @ [NextThreadId s],
          ThreadIdToIndex :=
            (if NextThreadId s \<in> dom (ThreadIdToIndex s) then ThreadIdToIndex s
             else (ThreadIdToIndex s)(NextThreadId s \<mapsto> NextCell s)),
          AtomicInts := (AtomicInts s)(NextCell s := int (length (Threads s))),
          NextThreadId := Suc (NextThreadId s),
          NextCell := Suc (NextCell s),
          Trace := Trace s @ [Spawn (NextThreadId s) (NextCell s)]\<rparr>"
  note ih = Suc.IH [of ?s1]
  have eq: "spawn_threads (Suc m) s = spawn_threads m ?s1" by simp
  from ih obtain evs where evs: "Trace (spawn_threads m ?s1) = Trace ?s1 @ evs"
    "\<forall>e \<in> set evs. \<exists>t' c. e = Spawn t' c \<and> NextThreadId ?s1 \<le> t'"
    by blast
  have tr: "\<exists>evs'. Trace (spawn_threads (Suc m) s) = Trace s @ evs'
         \<and> (\<forall>e \<in> set evs'. \<exists>t' c. e = Spawn t' c \<and> NextThreadId s \<le> t')"
  proof (intro exI [of _ "Spawn (NextThreadId s) (NextCell s) # evs"] conjI ballI)
    show "Trace (spawn_threads (Suc m) s) = Trace s @ Spawn (NextThreadId s) (NextCell s) # evs"
      using evs(1) by (simp del: spawn_threads.simps add: eq)
  next
    fix e assume "e \<in> set (Spawn (NextThreadId s) (NextCell s) # evs)"
    then consider "e = Spawn (NextThreadId s) (NextCell s)" | "e \<in> set evs" by auto
    then show "\<exists>t' c. e = Spawn t' c \<and> NextThreadId s \<le> t'"
    proof cases
      case 1
      then show ?thesis by simp
    next
      case 2
      with evs(2) obtain t' c where "e = Spawn t' c" "NextThreadId ?s1 \<le> t'" by blast
      then show ?thesis by simp
    qed
  qed
  have id: "t < NextThreadId s \<Longrightarrow> ThreadIdToIndex (spawn_threads (Suc m) s) t = ThreadIdToIndex s t"
  proof -
    assume lt: "t < NextThreadId s"
    then have "t < NextThreadId ?s1" by simp
    with ih have "ThreadIdToIndex (spawn_threads m ?s1) t = ThreadIdToIndex ?s1 t"
      by (simp del: spawn_threads.simps split: if_splits)
    with lt show ?thesis by (simp del: spawn_threads.simps add: eq)
  qed
  show ?case
    using id tr ih by (simp del: spawn_threads.simps add: eq)
qed

text \<open>
  C7: a worker whose index is at or above the NumberOfThreads target claims nothing: for
  every state of the deque its call of Pop returns false and leaves the state as it was,
  and its loop ends there, after erasing the thread's identity from ThreadIdToIndex.
  A later growth of the pool does not bring the thread back: SetNumberOfThreads returns,
  having only started threads with new identities, the identity of the demoted thread
  stays out of ThreadIdToIndex, and the deque is the one the demoted worker left.
\<close>

theorem demoted_worker_exits:
  assumes d: "NumberOfThreads s \<le> AtomicInts s (ThreadIndex w)"
  shows "Pop k w s = Inr (Returns False, s)
    \<and> ThreadWorker_run (Suc k) t w s
        = Inr (Exited, s\<lparr>ThreadIdToIndex := (ThreadIdToIndex s)(t := None)\<rparr>)
    \<and> (\<forall>u n. \<not> Destroying s \<and> int (length (Threads s)) < n \<and> t < NextThreadId s \<longrightarrow>
          (\<exists>s'. SetNumberOfThreads u n (s\<lparr>ThreadIdToIndex := (ThreadIdToIndex s)(t := None)\<rparr>)
                  = Inr s'
             \<and> ThreadIdToIndex s' t = None
             \<and> InvokerQueue s' = InvokerQueue s
             \<and> int (length (Threads s')) = n
             \<and> (\<exists>evs. Trace s' = Trace s @ evs
                   \<and> (\<forall>e \<in> set evs. \<exists>t' c. e = Spawn t' c \<and> t' \<noteq> t))))"
proof (intro conjI allI impI)
  show p: "Pop k w s = Inr (Returns False, s)"
    using d by (simp add: Pop_def OnHold_def Continue_def)
  show "ThreadWorker_run (Suc k) t w s
        = Inr (Exited, s\<lparr>ThreadIdToIndex := (ThreadIdToIndex s)(t := None)\<rparr>)"
    using p by simp
next
  fix u n
  assume a: "\<not> Destroying s \<and> int (length (Threads s)) < n \<and> t < NextThreadId s"
  let ?s0 = "s\<lparr>ThreadIdToIndex := (ThreadIdToIndex s)(t := None)\<rparr>"
  let ?s1 = "?s0\<lparr>NumberOfThreads := n\<rparr>"
  let ?m = "nat (n - int (length (Threads s)))"
  let ?s' = "spawn_threads ?m ?s1"
  have r: "SetNumberOfThreads u n ?s0 = Inr ?s'"
    using a by (simp add: SetNumberOfThreads_def)
  note f = spawn_threads_frame [of ?m ?s1 t]
  have 1: "ThreadIdToIndex ?s' t = None"
    using f a by simp
  have 2: "InvokerQueue ?s' = InvokerQueue s" using f by simp
  have 3: "int (length (Threads ?s')) = n" using f a by simp
  from f obtain evs where evs: "Trace ?s' = Trace ?s1 @ evs"
    "\<forall>e \<in> set evs. \<exists>t' c. e = Spawn t' c \<and> NextThreadId ?s1 \<le> t'"
    by blast
  have 4: "\<exists>evs. Trace ?s' = Trace s @ evs \<and> (\<forall>e \<in> set evs. \<exists>t' c. e = Spawn t' c \<and> t' \<noteq> t)"
  proof (intro exI [of _ evs] conjI ballI)
    show "Trace ?s' = Trace s @ evs" using evs(1) by simp
  next
    fix e assume "e \<in> set evs"
    with evs(2) obtain t' c where "e = Spawn t' c" "NextThreadId ?s1 \<le> t'" by blast
    with a show "\<exists>t' c. e = Spawn t' c \<and> t' \<noteq> t" by auto
  qed
  show "\<exists>s'. SetNumberOfThreads u n ?s0 = Inr s'
             \<and> ThreadIdToIndex s' t = None
             \<and> InvokerQueue s' = InvokerQueue s
             \<and> int (length (Threads s')) = n
             \<and> (\<exists>evs. Trace s' = Trace s @ evs
                   \<and> (\<forall>e \<in> set evs. \<exists>t' c. e = Spawn t' c \<and> t' \<noteq> t))"
    using r 1 2 3 4 by (intro exI [of _ ?s']) blast
qed

lemma demoted_example_fields:
  "NumberOfThreads demoted_example = 1"
  "AtomicInts demoted_example 1 = 1"
  "AtomicInts demoted_example 0 = 0"
  "\<not> Destroying demoted_example"
  "Threads demoted_example = [1, 2]"
  "NextThreadId demoted_example = 3"
  "Trace demoted_example = [Spawn 1 0, Spawn 2 1]"
  "InvokerQueue demoted_example = [Some (invoker_of 6 False)]"
  by (simp_all add: demoted_example_def worker_pool_def empty_queue_def numeral_2_eq_2)

theorem demoted_worker_exits_witness:
  "Pop 3 \<lparr>ThreadIndex = 1\<rparr> demoted_example = Inr (Returns False, demoted_example)
   \<and> ThreadWorker_run 4 2 \<lparr>ThreadIndex = 1\<rparr> demoted_example
       = Inr (Exited, demoted_example\<lparr>ThreadIdToIndex :=
                        (ThreadIdToIndex demoted_example)(2 := None)\<rparr>)
   \<and> (\<exists>s'. SetNumberOfThreads 1 3
               (demoted_example\<lparr>ThreadIdToIndex := (ThreadIdToIndex demoted_example)(2 := None)\<rparr>)
             = Inr s'
          \<and> ThreadIdToIndex s' 2 = None
          \<and> InvokerQueue s' = [Some (invoker_of 6 False)]
          \<and> length (Threads s') = 3)
   \<and> (\<exists>s'. Pop 3 \<lparr>ThreadIndex = 0\<rparr> demoted_example = Inr (Returns True, s')
          \<and> InvokerQueue s' = [])"
proof -
  have d: "NumberOfThreads demoted_example
             \<le> AtomicInts demoted_example (ThreadIndex \<lparr>ThreadIndex = 1\<rparr>)"
    using demoted_example_fields(1,2) by simp
  note th = demoted_worker_exits [OF d, of 3 2]
  have g: "\<not> Destroying demoted_example \<and> int (length (Threads demoted_example)) < 3
             \<and> 2 < NextThreadId demoted_example"
    using demoted_example_fields(4,5,6) by simp
  from th [THEN conjunct2, THEN conjunct2, rule_format, OF g, of 1]
  obtain s' where s': "SetNumberOfThreads 1 3
               (demoted_example\<lparr>ThreadIdToIndex := (ThreadIdToIndex demoted_example)(2 := None)\<rparr>)
             = Inr s'" "ThreadIdToIndex s' 2 = None"
      "InvokerQueue s' = InvokerQueue demoted_example" "int (length (Threads s')) = 3"
    by blast
  have 3: "\<exists>s'. SetNumberOfThreads 1 3
               (demoted_example\<lparr>ThreadIdToIndex := (ThreadIdToIndex demoted_example)(2 := None)\<rparr>)
             = Inr s'
          \<and> ThreadIdToIndex s' 2 = None
          \<and> InvokerQueue s' = [Some (invoker_of 6 False)]
          \<and> length (Threads s') = 3"
    using s' demoted_example_fields(8) by (intro exI [of _ s']) simp
  have 4: "\<exists>s'. Pop 3 \<lparr>ThreadIndex = 0\<rparr> demoted_example = Inr (Returns True, s')
          \<and> InvokerQueue s' = []"
    using demoted_example_fields(1,3,8)
    by (simp add: Pop_def OnHold_def Continue_def PopFrontNullptr_def
        Invoke.simps(2) SignalDependentSharedFutures.simps numeral_3_eq_3 write_Status_def
        RunInvoker_def invoker_of_def demoted_example_def task_def
        SignalDependentSharedFutures_launch_def)
  have e: "(4::nat) = Suc 3" by simp
  have 2: "ThreadWorker_run 4 2 \<lparr>ThreadIndex = 1\<rparr> demoted_example
       = Inr (Exited, demoted_example\<lparr>ThreadIdToIndex :=
                        (ThreadIdToIndex demoted_example)(2 := None)\<rparr>)"
    unfolding e by (rule th [THEN conjunct2, THEN conjunct1])
  from th [THEN conjunct1] 2 3 4 show ?thesis by blast
qed

section \<open>Shrinking the pool from a worker\<close>

lemma join_all_others:
  "this_thread \<notin> set ts \<Longrightarrow>
     join_all this_thread ts s = Inr (s\<lparr>Trace := Trace s @ map Join ts\<rparr>)"
  by (induction ts arbitrary: s) auto

lemma join_all_self:
  "this_thread \<in> set ts \<Longrightarrow> join_all this_thread ts s = Inl ResourceDeadlock"
  by (induction ts arbitrary: s) auto

text \<open>
  With a target of at least one, the shrink requested by a worker outside the new range
  goes as intended: the caller trades its slot and its index with thread 0, the threads
  in the slots from the target on are joined, the caller is not among them, and the
  handles are cut to the target.
\<close>

lemma SetNumberOfThreads_shrink_from_worker:
  assumes wf: "pool_wf s" and nd: "\<not> Destroying s"
    and n: "1 \<le> n" "n < int (length (Threads s))"
    and t: "Threads s ! i = t" "i < length (Threads s)" "n \<le> int i"
    and c: "ThreadIdToIndex s t = Some c"
  shows "\<exists>c0. ThreadIdToIndex s (Threads s ! 0) = Some c0 \<and> AtomicInts s c0 = 0
      \<and> AtomicInts s c = int i
      \<and> t \<notin> set (drop (nat n) ((Threads s)[i := Threads s ! 0, 0 := t]))
      \<and> SetNumberOfThreads t n s =
           Inr (s\<lparr>Threads := take (nat n) ((Threads s)[i := Threads s ! 0, 0 := t]),
                  AtomicInts := (AtomicInts s)(c0 := int i, c := 0),
                  NumberOfThreads := n,
                  Trace := Trace s @ NotifyAll
                    # map Join (drop (nat n) ((Threads s)[i := Threads s ! 0, 0 := t]))\<rparr>)"
proof -
  let ?ts = "(Threads s)[i := Threads s ! 0, 0 := t]"
  from wf t(1,2) c have ci: "AtomicInts s c = int i"
    unfolding pool_wf_def by fastforce
  have i0: "0 < i" using n(1) t(3) by simp
  have l0: "0 < length (Threads s)" using t(2) by (cases "Threads s") simp_all
  with wf obtain c0 where c0: "ThreadIdToIndex s (Threads s ! 0) = Some c0" "AtomicInts s c0 = 0"
    unfolding pool_wf_def by fastforce
  have ne: "c0 \<noteq> c" using ci c0(2) i0 by auto
  obtain t0 rest where tr: "Threads s = t0 # rest" using l0 by (cases "Threads s") auto
  have sw: "swap_with_thread0 t n s =
      Inr (s\<lparr>Threads := ?ts, AtomicInts := (AtomicInts s)(c0 := int i, c := 0)\<rparr>)"
    using c ci i0 t c0 tr ne by (simp add: swap_with_thread0_def Let_def)
  have d: "distinct (Threads s)" using wf by (simp add: pool_wf_def)
  have notin: "t \<notin> set (drop (nat n) ?ts)"
  proof
    assume "t \<in> set (drop (nat n) ?ts)"
    then obtain j where j: "j < length (drop (nat n) ?ts)" "drop (nat n) ?ts ! j = t"
      by (auto simp: in_set_conv_nth)
    let ?m = "nat n + j"
    have m: "?m < length (Threads s)" using j(1) by auto
    have m0: "0 \<noteq> ?m" using n(1) by linarith
    have "?ts ! ?m = t" using j by simp
    moreover have "?ts ! ?m = (Threads s)[i := Threads s ! 0] ! ?m"
      using m0 by (rule nth_list_update_neq)
    moreover have "(Threads s)[i := Threads s ! 0] ! ?m
        = (if ?m = i then Threads s ! 0 else Threads s ! ?m)"
      using t(2) by (auto simp: nth_list_update)
    ultimately have "(if ?m = i then Threads s ! 0 else Threads s ! ?m) = t"
      by simp
    then show False
    proof (cases "?m = i")
      case True
      with \<open>(if ?m = i then Threads s ! 0 else Threads s ! ?m) = t\<close>
      have "Threads s ! 0 = Threads s ! i" using t(1) by simp
      with d l0 t(2) i0 show False by (simp add: nth_eq_iff_index_eq)
    next
      case False
      with \<open>(if ?m = i then Threads s ! 0 else Threads s ! ?m) = t\<close>
      have "Threads s ! ?m = Threads s ! i" using t(1) by simp
      with d m t(2) False show False by (simp add: nth_eq_iff_index_eq)
    qed
  qed
  have sy: "Sync t n (s\<lparr>Threads := ?ts, AtomicInts := (AtomicInts s)(c0 := int i, c := 0),
                NumberOfThreads := n, Trace := Trace s @ [NotifyAll]\<rparr>)
      = Inr (s\<lparr>Threads := ?ts, AtomicInts := (AtomicInts s)(c0 := int i, c := 0),
                NumberOfThreads := n,
                Trace := Trace s @ NotifyAll # map Join (drop (nat n) ?ts)\<rparr>)"
    using n notin by (simp add: Sync_def join_all_others)
  have "SetNumberOfThreads t n s =
           Inr (s\<lparr>Threads := take (nat n) ?ts,
                  AtomicInts := (AtomicInts s)(c0 := int i, c := 0),
                  NumberOfThreads := n,
                  Trace := Trace s @ NotifyAll # map Join (drop (nat n) ?ts)\<rparr>)"
    using nd n sw sy by (simp add: SetNumberOfThreads_def Let_def)
  with c0 ci notin show ?thesis by blast
qed

lemma worker_pool_2:
  "worker_pool 2 =
     empty_queue\<lparr>Threads := [1, 2], ThreadIdToIndex := [1 \<mapsto> 0, 2 \<mapsto> 1],
       NumberOfThreads := 2, AtomicInts := (\<lambda>_. 0)(0 := 0, 1 := 1), NextThreadId := 3,
       NextCell := 2, Trace := [Spawn 1 0, Spawn 2 1]\<rparr>"
  by (simp add: worker_pool_def empty_queue_def numeral_2_eq_2 numeral_3_eq_3)

text \<open>
  C6, at a target of zero: in a pool of two workers (threads 1 and 2 with the indices 0
  and 1), the request to shrink to no thread made by either worker does not return
  normally. The worker with index 1 trades places with thread 0, so its own handle is in
  slot 0; the worker with index 0 is there already; the joins start at slot 0, and the
  caller joins itself. The same request from thread 2 with a target of one returns after
  joining thread 1 only.
\<close>

theorem SetNumberOfThreads_zero_from_worker:
  "SetNumberOfThreads 2 0 (worker_pool 2) = Inl ResourceDeadlock
   \<and> SetNumberOfThreads 1 0 (worker_pool 2) = Inl ResourceDeadlock
   \<and> swap_with_thread0 2 0 (worker_pool 2)
       = Inr ((worker_pool 2)\<lparr>Threads := [2, 1],
                AtomicInts := (AtomicInts (worker_pool 2))(0 := 1, 1 := 0)\<rparr>)
   \<and> SetNumberOfThreads 2 1 (worker_pool 2)
       = Inr ((worker_pool 2)\<lparr>Threads := [2],
                AtomicInts := (AtomicInts (worker_pool 2))(0 := 1, 1 := 0),
                NumberOfThreads := 1,
                Trace := Trace (worker_pool 2) @ [NotifyAll, Join 1]\<rparr>)"
  unfolding worker_pool_2
  by (simp add: SetNumberOfThreads_def swap_with_thread0_def Sync_def empty_queue_def Let_def)

end
